theory Spec2Isabelle
  imports Main "HOL-Library.Sublist"
begin

section \<open>Values, callbacks and the store\<close>

text \<open>
  The repository is a reactive core (\<open>src/framework/state.ts\<close>: \<open>signal\<close>, \<open>effect\<close>)
  and an element builder (\<open>h.ts\<close>: \<open>setOrRemoveAttr\<close>, \<open>add\<close>, \<open>createElement\<close>).
  Both work on closures and on shared mutable cells, so the model has an explicit store:
  every call of \<open>signal\<close> allocates a signal cell, every call of \<open>effect\<close> an effect cell
  (the closure variables \<open>compute\<close> and \<open>cleanup\<close> of that call), and function values
  are data that name the cell they close over.
\<close>

type_synonym sid = nat
type_synonym eid = nat
type_synonym nid = nat
type_synonym fid = nat

text \<open>
  JavaScript values. \<open>VFun f\<close> is a function written by the client (entry \<open>f\<close> of the
  client's function table), \<open>VAccessor s\<close> and \<open>VSetter s\<close> are the two closures
  returned by the \<open>s\<close>-th call of \<open>signal\<close>, \<open>VDisposer e\<close> is the closure returned by the
  \<open>e\<close>-th call of \<open>effect\<close>. Numbers are integers here (no claim depends on arithmetic).
  The list of a \<open>VObj\<close> is the object's own properties in \<open>Object.entries\<close> order.
\<close>

datatype jsval =
    VUndefined
  | VNull
  | VBool bool
  | VNum int
  | VStr string
  | VFun fid
  | VAccessor sid
  | VSetter sid
  | VDisposer eid
  | VNode nid
  | VArr "jsval list"
  | VObj "(string \<times> jsval) list"

text \<open>
  The function objects that can stand in the global \<open>Observer\<close> and in a signal's
  \<open>observers\<close> set: \<open>ComputeFn e\<close> is the arrow function assigned to \<open>compute\<close> at line 29
  by the \<open>e\<close>-th call of \<open>effect\<close>; \<open>NoopFn k\<close> is the \<open>k\<close>-th function object \<open>() => {}\<close>
  created at line 42 by a disposer.
\<close>

datatype observer = ComputeFn eid | NoopFn nat

text \<open>
  The argument \<open>fn\<close> of \<open>effect\<close>: a function value of the client, or one of the two arrow
  functions that the element builder passes to \<open>effect\<close> (in \<open>createElement\<close> and in \<open>add\<close>).
\<close>

datatype callback =
    JsFn jsval
  | AttrEffect "string option" nid string jsval
  | TextEffect nid jsval

text \<open>
  Client code: what a function of the client does, as a tree of its calls into the
  framework. A continuation receives the value the call returned.
  \<open>Call f k\<close> is \<open>x = f(); k x\<close>, \<open>Write s v p\<close> is \<open>set_s(v); p\<close>,
  \<open>NewSignal v k\<close> is \<open>[get, set] = signal(v)\<close>, \<open>NewEffect f k\<close> is \<open>d = effect(f); k d\<close>.
  Client code has no \<open>try\<close>/\<open>catch\<close> of its own and does not touch the DOM.
\<close>

datatype prog =
    Return jsval
  | Throw jsval
  | Call jsval "jsval \<Rightarrow> prog"
  | Write sid jsval prog
  | NewSignal jsval "sid \<Rightarrow> prog"
  | NewEffect jsval "jsval \<Rightarrow> prog"

text \<open>Calls of the DOM API made by the element builder.\<close>

datatype dom_call =
    CreateElementNS nid string string
  | CreateElement nid string
  | CreateTextNode nid string
  | SetAttributeNS nid "string option" string string
  | SetAttribute nid string string
  | RemoveAttributeNS nid string string
  | RemoveAttribute nid string
  | AppendChild nid nid
  | SetTextContent nid string
  | AddEventListener nid string jsval
  | RemoveEventListener nid string jsval

datatype error = TypeError | Thrown jsval | DOMException dom_call

text \<open>
  A history of what happened, kept in the state. It is written and never read by the
  model of the code: it only lets theorems speak about calls.
\<close>

datatype event =
    EvSignal sid jsval
  | EvRead sid jsval
  | EvWrite sid jsval
  | EvInvoke observer
  | EvEffect eid callback
  | EvFn eid
  | EvCleanup eid jsval
  | EvDispose eid
  | EvDom dom_call
  | EvDomThrow dom_call
  | EvWarn string

record signal_cell =
  val :: jsval
  observers :: "observer list"

record effect_cell =
  fn :: callback
  cleanup :: jsval
  compute_ref :: observer
  returned :: bool

datatype node = Element string "string option" | TextNode

record state =
  sigs :: "signal_cell list"
  effs :: "effect_cell list"
  Observer :: "observer option"
  noops :: nat
  nodes :: "node list"
  trace :: "event list"

text \<open>
  What the model takes from outside the three source files: the client's functions, the
  built-in \<open>String(...)\<close>, whether a DOM call throws (decided by the browser, from the
  calls made so far), and the table \<open>namespaceElements\<close> of \<open>ns.ts\<close>.
\<close>

record env =
  fns :: "fid \<Rightarrow> prog"
  js_String :: "jsval \<Rightarrow> string"
  dom_throws :: "event list \<Rightarrow> dom_call \<Rightarrow> bool"
  namespaceElements :: "string \<Rightarrow> string option"

type_synonym result = "error + jsval"

text \<open>\<open>None\<close>: the fuel ran out. An exception keeps the state reached when it was thrown.\<close>

type_synonym outcome = "(result \<times> state) option"

datatype task =
    Run prog
  | CallVal jsval
  | CallCb callback
  | Notify sid nat
  | Invoke observer
  | Compute eid
  | Effect jsval
  | Dispose eid
  | SetAttr "string option" nid string jsval

definition emit :: "event \<Rightarrow> state \<Rightarrow> state" where
  "emit ev st = st\<lparr>trace := trace st @ [ev]\<rparr>"

definition and_then :: "outcome \<Rightarrow> (jsval \<Rightarrow> state \<Rightarrow> outcome) \<Rightarrow> outcome" where
  "and_then m k =
     (case m of
        None \<Rightarrow> None
      | Some (Inl e, st) \<Rightarrow> Some (Inl e, st)
      | Some (Inr v, st) \<Rightarrow> k v st)"

text \<open>\<open>try { m } finally { f }\<close>\<close>

definition ensuring :: "outcome \<Rightarrow> (state \<Rightarrow> state) \<Rightarrow> outcome" where
  "ensuring m f = (case m of None \<Rightarrow> None | Some (r, st) \<Rightarrow> Some (r, f st))"

text \<open>\<open>try { m } catch (_e) { }\<close>\<close>

definition swallow :: "outcome \<Rightarrow> outcome" where
  "swallow m = (case m of Some (Inl e, st) \<Rightarrow> Some (Inr VUndefined, st) | other \<Rightarrow> other)"

fun truthy :: "jsval \<Rightarrow> bool" where
  "truthy VUndefined = False"
| "truthy VNull = False"
| "truthy (VBool b) = b"
| "truthy (VNum n) = (n \<noteq> 0)"
| "truthy (VStr s) = (s \<noteq> [])"
| "truthy v = True"

text \<open>\<open>typeof v === "function"\<close>\<close>

fun is_function :: "jsval \<Rightarrow> bool" where
  "is_function (VFun f) = True"
| "is_function (VAccessor s) = True"
| "is_function (VSetter s) = True"
| "is_function (VDisposer e) = True"
| "is_function v = False"

text \<open>\<open>Set.prototype.add\<close>: a set keeps insertion order and holds no element twice.\<close>

definition set_add :: "'a \<Rightarrow> 'a list \<Rightarrow> 'a list" where
  "set_add x xs = (if x \<in> set xs then xs else xs @ [x])"

section \<open>The reactive core (state.ts)\<close>

text \<open>
  \<open>signal(value)\<close>, lines 7 to 23: a new cell with an empty \<open>observers\<close> set. The pair it
  returns is \<open>(VAccessor s, VSetter s)\<close> for the index \<open>s\<close> returned here.
\<close>

definition signal :: "jsval \<Rightarrow> state \<Rightarrow> sid \<times> state" where
  "signal v st =
     (length (sigs st),
      emit (EvSignal (length (sigs st)) v)
        (st\<lparr>sigs := sigs st @ [\<lparr>val = v, observers = []\<rparr>]\<rparr>))"

text \<open>The accessor, lines 10 to 15.\<close>

definition accessor :: "sid \<Rightarrow> state \<Rightarrow> result \<times> state" where
  "accessor s st =
     (let st1 = (case Observer st of
                   Some ob \<Rightarrow>
                     st\<lparr>sigs := (sigs st)[s := (sigs st ! s)
                            \<lparr>observers := set_add ob (observers (sigs st ! s))\<rparr>]\<rparr>
                 | None \<Rightarrow> st)
      in (Inr (val (sigs st ! s)), emit (EvRead s (val (sigs st ! s))) st1))"

text \<open>
  The setter, lines 16 to 21: the assignment, then the loop over \<open>observers\<close>, which is
  the task \<open>Notify s 0\<close> (a \<open>for ... of\<close> over a set also visits the elements added while
  it runs, so the loop goes by index over the set as it is at each step).
\<close>

definition setter :: "(task \<Rightarrow> state \<Rightarrow> outcome) \<Rightarrow> sid \<Rightarrow> jsval \<Rightarrow> state \<Rightarrow> outcome" where
  "setter run s v st =
     run (Notify s 0)
       (emit (EvWrite s v) (st\<lparr>sigs := (sigs st)[s := (sigs st ! s)\<lparr>val := v\<rparr>]\<rparr>))"

text \<open>\<open>if (cleanup) cleanup();\<close> of lines 31 and 41.\<close>

definition run_cleanup :: "(task \<Rightarrow> state \<Rightarrow> outcome) \<Rightarrow> eid \<Rightarrow> state \<Rightarrow> outcome" where
  "run_cleanup run e st =
     (if truthy (cleanup (effs st ! e))
      then run (CallVal (cleanup (effs st ! e))) (emit (EvCleanup e (cleanup (effs st ! e))) st)
      else Some (Inr VUndefined, st))"

text \<open>The arrow function of lines 29 to 37, for the effect cell \<open>e\<close>.\<close>

definition compute :: "(task \<Rightarrow> state \<Rightarrow> outcome) \<Rightarrow> eid \<Rightarrow> state \<Rightarrow> outcome" where
  "compute run e st =
     ensuring
       (and_then (run_cleanup run e st) (\<lambda>_ st1.
        and_then (run (CallCb (fn (effs st1 ! e)))
                    (emit (EvFn e) (st1\<lparr>Observer := Some (compute_ref (effs st1 ! e))\<rparr>)))
          (\<lambda>v st2. Some (Inr VUndefined,
                          st2\<lparr>effs := (effs st2)[e := (effs st2 ! e)\<lparr>cleanup := v\<rparr>]\<rparr>))))
       (\<lambda>st'. st'\<lparr>Observer := None\<rparr>)"

text \<open>
  \<open>effect(fn)\<close>, lines 25 to 44: the two variables, the first run, the disposer. The
  disposer exists only once \<open>effect\<close> has returned (\<open>returned\<close>).
\<close>

definition effect :: "(task \<Rightarrow> state \<Rightarrow> outcome) \<Rightarrow> callback \<Rightarrow> state \<Rightarrow> outcome" where
  "effect run cb st =
     (let e = length (effs st) in
      and_then
        (run (Compute e)
           (emit (EvEffect e cb)
              (st\<lparr>effs := effs st @
                 [\<lparr>fn = cb, cleanup = VUndefined, compute_ref = ComputeFn e, returned = False\<rparr>]\<rparr>)))
        (\<lambda>_ st1. Some (Inr (VDisposer e),
                        st1\<lparr>effs := (effs st1)[e := (effs st1 ! e)\<lparr>returned := True\<rparr>]\<rparr>)))"

text \<open>The disposer, lines 40 to 43.\<close>

definition disposer :: "(task \<Rightarrow> state \<Rightarrow> outcome) \<Rightarrow> eid \<Rightarrow> state \<Rightarrow> outcome" where
  "disposer run e st =
     and_then (run_cleanup run e (emit (EvDispose e) st)) (\<lambda>_ st1.
       Some (Inr VUndefined,
             st1\<lparr>effs := (effs st1)[e := (effs st1 ! e)\<lparr>compute_ref := NoopFn (noops st1)\<rparr>],
                 noops := Suc (noops st1)\<rparr>))"

section \<open>Setting attributes (h.ts)\<close>

text \<open>A DOM call that the browser may refuse; the call is recorded either way.\<close>

definition dom :: "env \<Rightarrow> dom_call \<Rightarrow> state \<Rightarrow> outcome" where
  "dom env c st =
     (if dom_throws env (trace st) c
      then Some (Inl (DOMException c), emit (EvDomThrow c) st)
      else Some (Inr VUndefined, emit (EvDom c) st))"

definition namespaceURI :: "state \<Rightarrow> nid \<Rightarrow> string option" where
  "namespaceURI st el =
     (if el < length (nodes st)
      then (case nodes st ! el of Element tag ns \<Rightarrow> ns | TextNode \<Rightarrow> None)
      else None)"

text \<open>\<open>a || b\<close> on values that are a string or \<open>null\<close>: the empty string is falsy.\<close>

definition or_else :: "string option \<Rightarrow> string option \<Rightarrow> string option" where
  "or_else a b = (case a of Some s \<Rightarrow> (if s \<noteq> [] then Some s else b) | None \<Rightarrow> b)"

text \<open>\<open>key.replace(/^[^:]+:/, "")\<close>\<close>

definition strip_prefix :: "string \<Rightarrow> string" where
  "strip_prefix key =
     (let p = takeWhile (\<lambda>c. c \<noteq> CHR '':'') key;
          r = dropWhile (\<lambda>c. c \<noteq> CHR '':'') key
      in if p \<noteq> [] \<and> r \<noteq> [] then tl r else key)"

definition xhtml :: string where
  "xhtml = ''http://www.w3.org/1999/xhtml''"

definition attrNamespaces :: "(string \<times> string) list" where
  "attrNamespaces =
     [(''xlink:'', ''http://www.w3.org/1999/xlink''),
      (''xml:'', ''http://www.w3.org/XML/1998/namespace''),
      (''xsi:'', ''http://www.w3.org/2001/XMLSchema-instance'')]"

text \<open>Lines 87 to 95: the namespace of the attribute.\<close>

definition attr_ns :: "string option \<Rightarrow> string option \<Rightarrow> string \<Rightarrow> string option" where
  "attr_ns ns elNS key =
     (let elementNS = or_else (or_else ns elNS) None;
          attrNS = (case find (\<lambda>(p, uri). prefix p key) attrNamespaces of
                      Some (p, uri) \<Rightarrow> Some uri
                    | None \<Rightarrow> elementNS)
      in if attrNS = Some xhtml then None else attrNS)"

text \<open>Line 112: the string that is set.\<close>

definition attr_text :: "env \<Rightarrow> string \<Rightarrow> jsval \<Rightarrow> string" where
  "attr_text env key v = (if v = VBool True then strip_prefix key else js_String env v)"

text \<open>Line 97: \<open>value == null || value === false || value === "" || value === undefined\<close>.\<close>

definition removes :: "jsval \<Rightarrow> bool" where
  "removes v = (v = VNull \<or> v = VUndefined \<or> v = VBool False \<or> v = VStr [])"

text \<open>
  \<open>setOrRemoveAttr(ns, element, key, rawValue)\<close>, lines 74 to 120 of the second file.
\<close>

definition setOrRemoveAttr ::
  "env \<Rightarrow> (task \<Rightarrow> state \<Rightarrow> outcome) \<Rightarrow> string option \<Rightarrow> nid \<Rightarrow> string \<Rightarrow> jsval \<Rightarrow> state \<Rightarrow> outcome"
where
  "setOrRemoveAttr env run ns element key rawValue st =
     and_then (if is_function rawValue then run (CallVal rawValue) st else Some (Inr rawValue, st))
       (\<lambda>v st1.
          let attrNS = attr_ns ns (namespaceURI st1 element) key in
          if removes v then
            swallow
              (if or_else attrNS None \<noteq> None \<and> attrNS \<noteq> Some ''null''
               then dom env (RemoveAttributeNS element (the attrNS) (strip_prefix key)) st1
               else and_then (dom env (RemoveAttribute element key) st1)
                      (\<lambda>_ st2. dom env (RemoveAttribute element (strip_prefix key)) st2))
          else
            (case dom env (SetAttributeNS element attrNS key (attr_text env key v)) st1 of
               Some (Inl e, st2) \<Rightarrow> dom env (SetAttribute element key (attr_text env key v)) st2
             | other \<Rightarrow> other))"

section \<open>Running the code\<close>

text \<open>
  The functions above call each other through closures, and a client function can start
  any of them, so one interpreter ties them together. Its first argument bounds the
  depth of calls plus the number of loop rounds; \<open>None\<close> means the bound was reached.
\<close>

fun exec :: "env \<Rightarrow> nat \<Rightarrow> task \<Rightarrow> state \<Rightarrow> outcome" where
  "exec env 0 t st = None"
| "exec env (Suc n) (Run (Return v)) st = Some (Inr v, st)"
| "exec env (Suc n) (Run (Throw v)) st = Some (Inl (Thrown v), st)"
| "exec env (Suc n) (Run (Call f k)) st =
     and_then (exec env n (CallVal f) st) (\<lambda>v st'. exec env n (Run (k v)) st')"
| "exec env (Suc n) (Run (Write s v p)) st =
     (if s < length (sigs st)
      then and_then (setter (\<lambda>t s'. exec env n t s') s v st) (\<lambda>_ st'. exec env n (Run p) st')
      else Some (Inl TypeError, st))"
| "exec env (Suc n) (Run (NewSignal v k)) st =
     (case signal v st of (s, st') \<Rightarrow> exec env n (Run (k s)) st')"
| "exec env (Suc n) (Run (NewEffect f k)) st =
     and_then (exec env n (Effect f) st) (\<lambda>d st'. exec env n (Run (k d)) st')"
| "exec env (Suc n) (CallVal f) st =
     (case f of
        VFun i \<Rightarrow> exec env n (Run (fns env i)) st
      | VAccessor s \<Rightarrow>
          (if s < length (sigs st) then Some (accessor s st) else Some (Inl TypeError, st))
      | VSetter s \<Rightarrow>
          (if s < length (sigs st) then setter (\<lambda>t s'. exec env n t s') s VUndefined st
           else Some (Inl TypeError, st))
      | VDisposer e \<Rightarrow>
          (if e < length (effs st) \<and> returned (effs st ! e) then exec env n (Dispose e) st
           else Some (Inl TypeError, st))
      | _ \<Rightarrow> Some (Inl TypeError, st))"
| "exec env (Suc n) (CallCb cb) st =
     (case cb of
        JsFn f \<Rightarrow> exec env n (CallVal f) st
      | AttrEffect ns el key v \<Rightarrow> exec env n (SetAttr ns el key v) st
      | TextEffect tn child \<Rightarrow>
          and_then (exec env n (CallVal child) st)
            (\<lambda>v st'. dom env (SetTextContent tn (js_String env v)) st'))"
| "exec env (Suc n) (Notify s i) st =
     (if i < length (observers (sigs st ! s))
      then and_then (exec env n (Invoke (observers (sigs st ! s) ! i)) st)
             (\<lambda>_ st'. exec env n (Notify s (Suc i)) st')
      else Some (Inr VUndefined, st))"
| "exec env (Suc n) (Invoke ob) st =
     (case ob of
        ComputeFn e \<Rightarrow> exec env n (Compute e) (emit (EvInvoke ob) st)
      | NoopFn k \<Rightarrow> Some (Inr VUndefined, emit (EvInvoke ob) st))"
| "exec env (Suc n) (Compute e) st = compute (\<lambda>t s'. exec env n t s') e st"
| "exec env (Suc n) (Effect f) st = effect (\<lambda>t s'. exec env n t s') (JsFn f) st"
| "exec env (Suc n) (Dispose e) st = disposer (\<lambda>t s'. exec env n t s') e st"
| "exec env (Suc n) (SetAttr ns el key v) st =
     setOrRemoveAttr env (\<lambda>t s'. exec env n t s') ns el key v st"

section \<open>Building elements (h.ts)\<close>

text \<open>
  \<open>document.createTextNode(data)\<close>. Creating a node allocates it; text nodes have no
  \<open>namespaceURI\<close>.
\<close>

definition createTextNode :: "string \<Rightarrow> state \<Rightarrow> nid \<times> state" where
  "createTextNode data st =
     (length (nodes st),
      emit (EvDom (CreateTextNode (length (nodes st)) data)) (st\<lparr>nodes := nodes st @ [TextNode]\<rparr>))"

text \<open>
  \<open>add(parent, child)\<close>, lines 123 to 137. The closure given to \<open>effect\<close> at line 130
  is \<open>TextEffect textNode child\<close>, run by the interpreter.
\<close>

fun add :: "env \<Rightarrow> (task \<Rightarrow> state \<Rightarrow> outcome) \<Rightarrow> nid \<Rightarrow> jsval \<Rightarrow> state \<Rightarrow> outcome"
  and add_forEach ::
    "env \<Rightarrow> (task \<Rightarrow> state \<Rightarrow> outcome) \<Rightarrow> nid \<Rightarrow> jsval list \<Rightarrow> state \<Rightarrow> outcome"
where
  "add env run parent (VArr cs) st = add_forEach env run parent cs st"
| "add env run parent (VNode c) st = dom env (AppendChild parent c) st"
| "add env run parent (VNum n) st =
     (case createTextNode (js_String env (VNum n)) st of
        (tn, st1) \<Rightarrow> dom env (AppendChild parent tn) st1)"
| "add env run parent (VStr s) st =
     (case createTextNode (js_String env (VStr s)) st of
        (tn, st1) \<Rightarrow> dom env (AppendChild parent tn) st1)"
| "add env run parent child st =
     (if is_function child
      then (case createTextNode [] st of
              (tn, st1) \<Rightarrow>
                and_then (effect run (TextEffect tn child) st1)
                  (\<lambda>_ st2. dom env (AppendChild parent tn) st2))
      else Some (Inr VUndefined, st))"
| "add_forEach env run parent [] st = Some (Inr VUndefined, st)"
| "add_forEach env run parent (c # cs) st =
     and_then (add env run parent c st) (\<lambda>_ st'. add_forEach env run parent cs st')"

text \<open>\<open>toLowerCase\<close>, on the ASCII letters.\<close>

definition toLowerCase :: "string \<Rightarrow> string" where
  "toLowerCase =
     map (\<lambda>c. if (65::nat) \<le> of_char c \<and> of_char c \<le> (90::nat)
              then char_of (of_char c + (32::nat)) else c)"

text \<open>The text of line 172.\<close>

definition warning :: "env \<Rightarrow> string \<Rightarrow> jsval \<Rightarrow> string" where
  "warning env key v =
     ''The '' @ [CHR 0x22] @ key @ [CHR 0x22] @ '' property '' @ [CHR 0x22] @ js_String env v
       @ [CHR 0x22] @ '' is not a function.''"

text \<open>The arrow function of lines 169 to 187, applied to one entry of \<open>first\<close>.\<close>

definition set_prop ::
  "env \<Rightarrow> (task \<Rightarrow> state \<Rightarrow> outcome) \<Rightarrow> nid \<Rightarrow> string \<Rightarrow> jsval \<Rightarrow> state \<Rightarrow> outcome"
where
  "set_prop env run element key v st =
     (if prefix ''on'' key then
        (if \<not> is_function v then Some (Inr VUndefined, emit (EvWarn (warning env key v)) st)
         else and_then (dom env (RemoveEventListener element (toLowerCase (drop 2 key)) v) st)
                (\<lambda>_ st1. dom env (AddEventListener element (toLowerCase (drop 2 key)) v) st1))
      else effect run
             (AttrEffect (if key = ''xmlns'' then None else namespaceURI st element) element key v)
             st)"

fun set_props ::
  "env \<Rightarrow> (task \<Rightarrow> state \<Rightarrow> outcome) \<Rightarrow> nid \<Rightarrow> (string \<times> jsval) list \<Rightarrow> state \<Rightarrow> outcome"
where
  "set_props env run element [] st = Some (Inr VUndefined, st)"
| "set_props env run element ((key, v) # kvs) st =
     and_then (set_prop env run element key v st) (\<lambda>_ st'. set_props env run element kvs st')"

text \<open>\<open>Object.entries(first)\<close>: an array has its indices as keys.\<close>

fun entries :: "env \<Rightarrow> jsval \<Rightarrow> (string \<times> jsval) list" where
  "entries env (VObj kvs) = kvs"
| "entries env (VArr xs) = zip (map (\<lambda>i. js_String env (VNum (int i))) [0..<length xs]) xs"
| "entries env v = []"

text \<open>Line 168: \<open>first && typeof first === "object" && !(first instanceof Node)\<close>.\<close>

fun is_props :: "jsval \<Rightarrow> bool" where
  "is_props (VObj kvs) = True"
| "is_props (VArr xs) = True"
| "is_props v = False"

text \<open>Line 190.\<close>

fun is_child :: "jsval \<Rightarrow> bool" where
  "is_child (VStr s) = (s \<noteq> [])"
| "is_child (VNode c) = True"
| "is_child (VArr xs) = True"
| "is_child v = is_function v"

text \<open>
  \<open>createElement(tagName, first, ...children)\<close>, lines 157 to 199; an absent \<open>first\<close> is
  \<open>VUndefined\<close>. The document is an HTML document, so \<open>document.createElement\<close> gives
  an element in the XHTML namespace.
\<close>

definition createElement ::
  "env \<Rightarrow> (task \<Rightarrow> state \<Rightarrow> outcome) \<Rightarrow> string \<Rightarrow> jsval \<Rightarrow> jsval list \<Rightarrow> state \<Rightarrow> outcome"
where
  "createElement env run tagName first children st =
     (let ns = namespaceElements env tagName;
          element = length (nodes st);
          st0 = (if or_else ns None \<noteq> None
                 then emit (EvDom (CreateElementNS element (the ns) tagName))
                        (st\<lparr>nodes := nodes st @ [Element tagName ns]\<rparr>)
                 else emit (EvDom (CreateElement element tagName))
                        (st\<lparr>nodes := nodes st @ [Element tagName (Some xhtml)]\<rparr>))
      in and_then (if is_props first then set_props env run element (entries env first) st0
                   else Some (Inr VUndefined, st0))
           (\<lambda>_ st1.
              and_then (if is_child first then add env run element first st1
                        else Some (Inr VUndefined, st1))
                (\<lambda>_ st2.
                   and_then (add_forEach env run element children st2)
                     (\<lambda>_ st3. Some (Inr (VNode element), st3)))))"

section \<open>What an execution can do to the state\<close>

text \<open>
  The DOM calls made by the two closures that the element builder hands to \<open>effect\<close>.
\<close>

fun attr_call :: "dom_call \<Rightarrow> bool" where
  "attr_call (SetAttributeNS el ns k v) = True"
| "attr_call (SetAttribute el k v) = True"
| "attr_call (RemoveAttributeNS el ns k) = True"
| "attr_call (RemoveAttribute el k) = True"
| "attr_call (SetTextContent tn s) = True"
| "attr_call c = False"

text \<open>The events that the interpreter records besides those of a signal.\<close>

fun quiet :: "event \<Rightarrow> bool" where
  "quiet (EvInvoke ob) = True"
| "quiet (EvEffect e (JsFn f)) = True"
| "quiet (EvFn e) = True"
| "quiet (EvCleanup e c) = True"
| "quiet (EvDispose e) = True"
| "quiet (EvDom c) = attr_call c"
| "quiet (EvDomThrow c) = attr_call c"
| "quiet ev = False"

text \<open>
  The atomic changes of the state made while the interpreter runs: every execution is a
  sequence of them (lemma \<open>exec_ext\<close>). None of them touches \<open>nodes\<close>.
\<close>

inductive step :: "state \<Rightarrow> state \<Rightarrow> bool" where
  step_signal: "step st (snd (signal v st))"
| step_read: "s < length (sigs st) \<Longrightarrow> step st (snd (accessor s st))"
| step_write: "s < length (sigs st) \<Longrightarrow>
     step st (emit (EvWrite s v) (st\<lparr>sigs := (sigs st)[s := (sigs st ! s)\<lparr>val := v\<rparr>]\<rparr>))"
| step_emit: "quiet ev \<Longrightarrow> step st (emit ev st)"
| step_Observer: "step st (st\<lparr>Observer := ob\<rparr>)"
| step_effs: "length (effs st) \<le> length es \<Longrightarrow> step st (st\<lparr>effs := es\<rparr>)"
| step_noops: "step st (st\<lparr>noops := k\<rparr>)"

text \<open>
  \<open>ext st st'\<close>: \<open>st'\<close> is reached from \<open>st\<close> by such changes, and the global \<open>Observer\<close> is
  as it was or \<open>null\<close>.
\<close>

definition ext :: "state \<Rightarrow> state \<Rightarrow> bool" where
  "ext st st' \<longleftrightarrow> step\<^sup>*\<^sup>* st st' \<and> (Observer st' = None \<or> Observer st' = Observer st)"

section \<open>Reading the history\<close>

text \<open>The events recorded between two states of one execution.\<close>

definition since :: "state \<Rightarrow> state \<Rightarrow> event list" where
  "since st st' = drop (length (trace st)) (trace st')"

text \<open>A call of the accessor, and of the setter, of the signal \<open>s\<close>.\<close>

fun reads :: "sid \<Rightarrow> event \<Rightarrow> bool" where
  "reads s (EvRead s' x) = (s' = s)"
| "reads s ev = False"

fun writes :: "sid \<Rightarrow> event \<Rightarrow> bool" where
  "writes s (EvWrite s' x) = (s' = s)"
| "writes s ev = False"

text \<open>
  The value of the signal \<open>s\<close> after the events \<open>tr\<close>, when it was \<open>cur\<close> before them; and
  the property that every read of \<open>s\<close> in \<open>tr\<close> returned the value written last before it
  (\<open>cur\<close>, if \<open>tr\<close> has no earlier write of \<open>s\<close>).
\<close>

fun last_val :: "sid \<Rightarrow> jsval \<Rightarrow> event list \<Rightarrow> jsval" where
  "last_val s cur [] = cur"
| "last_val s cur (EvWrite s' x # tr) = last_val s (if s' = s then x else cur) tr"
| "last_val s cur (ev # tr) = last_val s cur tr"

fun reads_latest :: "sid \<Rightarrow> jsval \<Rightarrow> event list \<Rightarrow> bool" where
  "reads_latest s cur [] = True"
| "reads_latest s cur (EvRead s' x # tr) = ((if s' = s then x = cur else True) \<and> reads_latest s cur tr)"
| "reads_latest s cur (EvWrite s' x # tr) = reads_latest s (if s' = s then x else cur) tr"
| "reads_latest s cur (ev # tr) = reads_latest s cur tr"

text \<open>The events that the interpreter records.\<close>

fun core :: "event \<Rightarrow> bool" where
  "core (EvSignal s v) = True"
| "core (EvRead s v) = True"
| "core (EvWrite s v) = True"
| "core ev = quiet ev"

text \<open>
  What holds between the states before and after any execution: the history, the signal
  cells and their observer sets only grow, the DOM nodes are the same, and each signal
  cell changes as the events on that signal say.
\<close>

definition sound :: "state \<Rightarrow> state \<Rightarrow> bool" where
  "sound st st' \<longleftrightarrow>
     prefix (trace st) (trace st') \<and> nodes st' = nodes st
     \<and> length (sigs st) \<le> length (sigs st') \<and> length (effs st) \<le> length (effs st')
     \<and> list_all core (since st st')
     \<and> (\<forall>s<length (sigs st).
           prefix (observers (sigs st ! s)) (observers (sigs st' ! s))
           \<and> reads_latest s (val (sigs st ! s)) (since st st')
           \<and> val (sigs st' ! s) = last_val s (val (sigs st ! s)) (since st st')
           \<and> (list_all (\<lambda>ev. \<not> reads s ev) (since st st')
                \<longrightarrow> observers (sigs st' ! s) = observers (sigs st ! s)))"

text \<open>A call of the cleanup stored by the effect \<open>e\<close>.\<close>

fun is_cleanup :: "eid \<Rightarrow> event \<Rightarrow> bool" where
  "is_cleanup e (EvCleanup e' c) = (e' = e)"
| "is_cleanup e ev = False"

section \<open>What the element builder is expected to do\<close>

text \<open>
  Three readings of a history: the closures of the element builder that were given to
  \<open>effect\<close> (one entry per call of \<open>effect\<close>), the texts given to \<open>console.warn\<close>, and the
  listeners attached with \<open>addEventListener\<close>.
\<close>

fun bound :: "event \<Rightarrow> callback list" where
  "bound (EvEffect e (JsFn f)) = []"
| "bound (EvEffect e cb) = [cb]"
| "bound ev = []"

fun warned :: "event \<Rightarrow> string list" where
  "warned (EvWarn m) = [m]"
| "warned ev = []"

fun listened :: "event \<Rightarrow> dom_call list" where
  "listened (EvDom (AddEventListener el name h)) = [AddEventListener el name h]"
| "listened ev = []"

definition bindings :: "event list \<Rightarrow> callback list" where
  "bindings tr = concat (map bound tr)"

definition warnings :: "event list \<Rightarrow> string list" where
  "warnings tr = concat (map warned tr)"

definition listeners :: "event list \<Rightarrow> dom_call list" where
  "listeners tr = concat (map listened tr)"

text \<open>
  Stated from the spec's words, for comparison with \<open>createElement\<close>: a prop whose key
  does not start with \<open>on\<close> is bound in one effect that calls \<open>setOrRemoveAttr\<close>; a prop
  whose key starts with \<open>on\<close> gives a warning when its value is not a function and a
  listener when it is.
\<close>

definition prop_binding :: "string option \<Rightarrow> nid \<Rightarrow> string \<times> jsval \<Rightarrow> callback list" where
  "prop_binding elNS el kv =
     (if prefix ''on'' (fst kv) then []
      else [AttrEffect (if fst kv = ''xmlns'' then None else elNS) el (fst kv) (snd kv)])"

definition prop_warning :: "env \<Rightarrow> string \<times> jsval \<Rightarrow> string list" where
  "prop_warning env kv =
     (if prefix ''on'' (fst kv) \<and> \<not> is_function (snd kv) then [warning env (fst kv) (snd kv)]
      else [])"

definition prop_listener :: "nid \<Rightarrow> string \<times> jsval \<Rightarrow> dom_call list" where
  "prop_listener el kv =
     (if prefix ''on'' (fst kv) \<and> is_function (snd kv)
      then [AddEventListener el (toLowerCase (drop 2 (fst kv))) (snd kv)] else [])"

text \<open>
  Also from the spec's words: every accessor child gets a text node of its own and one
  effect that sets its text. \<open>made c\<close> counts the text nodes created for the child \<open>c\<close>
  (strings and numbers get one too), \<open>binds N c\<close> lists the effects when the next free
  node is \<open>N\<close>.
\<close>

fun made :: "jsval \<Rightarrow> nat" and made_list :: "jsval list \<Rightarrow> nat" where
  "made (VArr cs) = made_list cs"
| "made (VNode c) = 0"
| "made (VNum n) = 1"
| "made (VStr s) = 1"
| "made c = (if is_function c then 1 else 0)"
| "made_list [] = 0"
| "made_list (c # cs) = made c + made_list cs"

fun binds :: "nat \<Rightarrow> jsval \<Rightarrow> callback list" and binds_list :: "nat \<Rightarrow> jsval list \<Rightarrow> callback list"
where
  "binds N (VArr cs) = binds_list N cs"
| "binds N (VNode c) = []"
| "binds N (VNum n) = []"
| "binds N (VStr s) = []"
| "binds N c = (if is_function c then [TextEffect N c] else [])"
| "binds_list N [] = []"
| "binds_list N (c # cs) = binds N c @ binds_list (N + made c) cs"

text \<open>
  \<open>built st st' bs ws ls k\<close>: between \<open>st\<close> and \<open>st'\<close> the builder made the bindings \<open>bs\<close>, the
  warnings \<open>ws\<close>, the listeners \<open>ls\<close>, and \<open>k\<close> text nodes.
\<close>

definition built ::
  "state \<Rightarrow> state \<Rightarrow> callback list \<Rightarrow> string list \<Rightarrow> dom_call list \<Rightarrow> nat \<Rightarrow> bool" where
  "built st st' bs ws ls k \<longleftrightarrow>
     prefix (trace st) (trace st')
     \<and> bindings (since st st') = bs \<and> warnings (since st st') = ws
     \<and> listeners (since st st') = ls
     \<and> nodes st' = nodes st @ replicate k TextNode"


text \<open>
  The namespace of the created element (lines 162 to 165), the entries that line 168 takes
  as props, and the children that lines 190 to 193 hand to \<open>add\<close>.
\<close>

definition element_ns :: "env \<Rightarrow> string \<Rightarrow> string option" where
  "element_ns env tagName =
     (if or_else (namespaceElements env tagName) None \<noteq> None then namespaceElements env tagName
      else Some xhtml)"

definition props_of :: "env \<Rightarrow> jsval \<Rightarrow> (string \<times> jsval) list" where
  "props_of env first = (if is_props first then entries env first else [])"

definition kids_of :: "jsval \<Rightarrow> jsval list \<Rightarrow> jsval list" where
  "kids_of first children = (if is_child first then [first] else []) @ children"

section \<open>States that the code reaches\<close>

text \<open>
  A DOM call that sets an attribute whose name starts with \<open>on\<close>, and the events that
  are not such a call (made or refused).
\<close>

fun sets_on_attr :: "dom_call \<Rightarrow> bool" where
  "sets_on_attr (SetAttributeNS el ns k x) = prefix ''on'' k"
| "sets_on_attr (SetAttribute el k x) = prefix ''on'' k"
| "sets_on_attr c = False"

fun calm :: "event \<Rightarrow> bool" where
  "calm (EvDom c) = (\<not> sets_on_attr c)"
| "calm (EvDomThrow c) = (\<not> sets_on_attr c)"
| "calm ev = True"

text \<open>
  A function object that names an effect cell names an allocated one; and a closure given
  to \<open>effect\<close> that sets an attribute does so for a key that does not start with \<open>on\<close>
  (line 170 sends the other keys to the listener branch).
\<close>

fun in_range :: "nat \<Rightarrow> observer \<Rightarrow> bool" where
  "in_range n (ComputeFn e) = (e < n)"
| "in_range n (NoopFn k) = True"

fun plain :: "callback \<Rightarrow> bool" where
  "plain (AttrEffect ns el k v) = (\<not> prefix ''on'' k)"
| "plain cb = True"

text \<open>
  The states the code produces: every stored callback is \<open>plain\<close>, and every function
  object held by an effect cell, by an \<open>observers\<close> set or by the global \<open>Observer\<close> names
  an allocated effect cell. The empty state is such a state, and every execution and every
  call of \<open>createElement\<close> keeps the property (lemmas \<open>well_formed_start\<close>, \<open>exec_keeps\<close>,
  \<open>createElement_keeps\<close>).
\<close>

definition well_formed :: "state \<Rightarrow> bool" where
  "well_formed st \<longleftrightarrow>
     list_all (\<lambda>c. plain (fn c) \<and> in_range (length (effs st)) (compute_ref c)) (effs st)
     \<and> list_all (\<lambda>c. list_all (in_range (length (effs st))) (observers c)) (sigs st)
     \<and> pred_option (in_range (length (effs st))) (Observer st)"

text \<open>
  The tasks the interpreter is started with in such a state: a task that names a cell
  names an allocated one, and a closure of the builder is \<open>plain\<close>. Client code, calls of
  function values and \<open>effect\<close> are always admissible.
\<close>

fun admissible :: "state \<Rightarrow> task \<Rightarrow> bool" where
  "admissible st (Notify s i) = (s < length (sigs st))"
| "admissible st (Invoke ob) = in_range (length (effs st)) ob"
| "admissible st (Compute e) = (e < length (effs st))"
| "admissible st (CallCb cb) = plain cb"
| "admissible st (SetAttr ns el k v) = (\<not> prefix ''on'' k)"
| "admissible st t = True"

text \<open>
  \<open>keeps st st'\<close>: \<open>st'\<close> is again such a state, and between \<open>st\<close> and \<open>st'\<close> no attribute
  whose name starts with \<open>on\<close> was set.
\<close>

definition keeps :: "state \<Rightarrow> state \<Rightarrow> bool" where
  "keeps st st' \<longleftrightarrow>
     well_formed st' \<and> prefix (trace st) (trace st') \<and> list_all calm (since st st')
     \<and> length (sigs st) \<le> length (sigs st') \<and> length (effs st) \<le> length (effs st')"

section \<open>Concrete inputs\<close>

text \<open>A state between effect runs: one signal, observed by the effect \<open>0\<close>.\<close>

definition st_idle :: state where
  "st_idle =
     \<lparr>sigs = [\<lparr>val = VNum 7, observers = [ComputeFn 0]\<rparr>],
      effs = [\<lparr>fn = JsFn (VFun 0), cleanup = VUndefined, compute_ref = ComputeFn 0,
               returned = True\<rparr>],
      Observer = None, noops = 0, nodes = [], trace = []\<rparr>"

text \<open>
  A client with five functions: \<open>0\<close> reads the signal \<open>0\<close>; \<open>1\<close> starts a nested effect
  and then reads the signal \<open>0\<close>; \<open>2\<close> does nothing; \<open>3\<close> reads the signal \<open>0\<close> and returns
  the function \<open>2\<close> as its cleanup; \<open>4\<close> reads the signal \<open>0\<close> and throws. No DOM call throws.
\<close>

definition client_fns :: "fid \<Rightarrow> prog" where
  "client_fns i =
     (if i = 0 then Call (VAccessor 0) (\<lambda>_. Return VUndefined)
      else if i = 1 then NewEffect (VFun 2) (\<lambda>_. Call (VAccessor 0) (\<lambda>_. Return VUndefined))
      else if i = 3 then Call (VAccessor 0) (\<lambda>_. Return (VFun 2))
      else if i = 4 then Call (VAccessor 0) (\<lambda>_. Throw (VStr ''boom''))
      else Return VUndefined)"

definition show_val :: "jsval \<Rightarrow> string" where
  "show_val v =
     (case v of
        VStr s \<Rightarrow> s
      | VBool b \<Rightarrow> (if b then ''true'' else ''false'')
      | VNull \<Rightarrow> ''null''
      | VUndefined \<Rightarrow> ''undefined''
      | VNum n \<Rightarrow> (if n = 0 then ''0'' else if n = 1 then ''1'' else ''7'')
      | _ \<Rightarrow> ''[object]'')"

definition env_demo :: env where
  "env_demo =
     \<lparr>fns = client_fns, js_String = show_val, dom_throws = (\<lambda>tr c. False),
      namespaceElements = (\<lambda>tag. if tag = ''svg'' then Some ''http://www.w3.org/2000/svg'' else None)\<rparr>"

text \<open>The state after \<open>signal(0)\<close> in an empty program.\<close>

definition st_sig :: state where
  "st_sig =
     \<lparr>sigs = [\<lparr>val = VNum 0, observers = []\<rparr>], effs = [], Observer = None, noops = 0,
      nodes = [], trace = [EvSignal 0 (VNum 0)]\<rparr>"

text \<open>After \<open>effect(f0)\<close> in \<open>st_sig\<close>; then after its disposer; then after a write.\<close>

definition st_eff :: state where
  "st_eff =
     \<lparr>sigs = [\<lparr>val = VNum 0, observers = [ComputeFn 0]\<rparr>],
      effs = [\<lparr>fn = JsFn (VFun 0), cleanup = VUndefined, compute_ref = ComputeFn 0,
               returned = True\<rparr>],
      Observer = None, noops = 0, nodes = [],
      trace = [EvSignal 0 (VNum 0), EvEffect 0 (JsFn (VFun 0)), EvFn 0, EvRead 0 (VNum 0)]\<rparr>"

definition st_disposed :: state where
  "st_disposed =
     \<lparr>sigs = [\<lparr>val = VNum 0, observers = [ComputeFn 0]\<rparr>],
      effs = [\<lparr>fn = JsFn (VFun 0), cleanup = VUndefined, compute_ref = NoopFn 0,
               returned = True\<rparr>],
      Observer = None, noops = 1, nodes = [],
      trace = [EvSignal 0 (VNum 0), EvEffect 0 (JsFn (VFun 0)), EvFn 0, EvRead 0 (VNum 0),
               EvDispose 0]\<rparr>"

definition st_rerun :: state where
  "st_rerun =
     \<lparr>sigs = [\<lparr>val = VNum 1, observers = [ComputeFn 0, NoopFn 0]\<rparr>],
      effs = [\<lparr>fn = JsFn (VFun 0), cleanup = VUndefined, compute_ref = NoopFn 0,
               returned = True\<rparr>],
      Observer = None, noops = 1, nodes = [],
      trace = [EvSignal 0 (VNum 0), EvEffect 0 (JsFn (VFun 0)), EvFn 0, EvRead 0 (VNum 0),
               EvDispose 0, EvWrite 0 (VNum 1), EvInvoke (ComputeFn 0), EvFn 0,
               EvRead 0 (VNum 1), EvInvoke (NoopFn 0)]\<rparr>"

text \<open>After \<open>effect(f1)\<close> in \<open>st_sig\<close>.\<close>

definition st_nested :: state where
  "st_nested =
     \<lparr>sigs = [\<lparr>val = VNum 0, observers = []\<rparr>],
      effs = [\<lparr>fn = JsFn (VFun 1), cleanup = VUndefined, compute_ref = ComputeFn 0,
               returned = True\<rparr>,
              \<lparr>fn = JsFn (VFun 2), cleanup = VUndefined, compute_ref = ComputeFn 1,
               returned = True\<rparr>],
      Observer = None, noops = 0, nodes = [],
      trace = [EvSignal 0 (VNum 0), EvEffect 0 (JsFn (VFun 1)), EvFn 0,
               EvEffect 1 (JsFn (VFun 2)), EvFn 1, EvRead 0 (VNum 0)]\<rparr>"

text \<open>After \<open>effect(f3)\<close> in \<open>st_sig\<close>.\<close>

definition st_cleanup :: state where
  "st_cleanup =
     \<lparr>sigs = [\<lparr>val = VNum 0, observers = [ComputeFn 0]\<rparr>],
      effs = [\<lparr>fn = JsFn (VFun 3), cleanup = VFun 2, compute_ref = ComputeFn 0,
               returned = True\<rparr>],
      Observer = None, noops = 0, nodes = [],
      trace = [EvSignal 0 (VNum 0), EvEffect 0 (JsFn (VFun 3)), EvFn 0, EvRead 0 (VNum 0)]\<rparr>"



text \<open>\<open>st_cleanup\<close> after a re-run of its effect, and after its disposer.\<close>

definition st_cleanup_rerun :: state where
  "st_cleanup_rerun =
     \<lparr>sigs = [\<lparr>val = VNum 0, observers = [ComputeFn 0]\<rparr>],
      effs = [\<lparr>fn = JsFn (VFun 3), cleanup = VFun 2, compute_ref = ComputeFn 0,
               returned = True\<rparr>],
      Observer = None, noops = 0, nodes = [],
      trace = [EvSignal 0 (VNum 0), EvEffect 0 (JsFn (VFun 3)), EvFn 0, EvRead 0 (VNum 0),
               EvCleanup 0 (VFun 2), EvFn 0, EvRead 0 (VNum 0)]\<rparr>"

definition st_cleanup_disposed :: state where
  "st_cleanup_disposed =
     \<lparr>sigs = [\<lparr>val = VNum 0, observers = [ComputeFn 0]\<rparr>],
      effs = [\<lparr>fn = JsFn (VFun 3), cleanup = VFun 2, compute_ref = NoopFn 0,
               returned = True\<rparr>],
      Observer = None, noops = 1, nodes = [],
      trace = [EvSignal 0 (VNum 0), EvEffect 0 (JsFn (VFun 3)), EvFn 0, EvRead 0 (VNum 0),
               EvDispose 0, EvCleanup 0 (VFun 2)]\<rparr>"

text \<open>
  An environment in which every \<open>setAttributeNS\<close> throws; a state with one \<open>div\<close>; the
  props of a button.
\<close>

definition env_ns_fails :: env where
  "env_ns_fails =
     env_demo\<lparr>dom_throws := (\<lambda>tr c. case c of SetAttributeNS el ns k v \<Rightarrow> True | _ \<Rightarrow> False)\<rparr>"

definition st_div :: state where
  "st_div = \<lparr>sigs = [], effs = [], Observer = None, noops = 0,
             nodes = [Element ''div'' (Some xhtml)], trace = []\<rparr>"

definition button_props :: jsval where
  "button_props =
     VObj [(''class'', VStr ''b''), (''onclick'', VNum 7), (''onhover'', VFun 2),
           (''data-count'', VAccessor 0)]"

text \<open>
  A second client. Its function \<open>5\<close> reads the signal \<open>0\<close> and, when it reads \<open>1\<close>, writes
  \<open>0\<close> to it, reads it again and returns what that read gave; its function \<open>6\<close> reads the
  signal \<open>0\<close> and returns what the read gave. What a callback returns is stored in \<open>cleanup\<close>
  (line 33), so the value an accessor call returned is visible in the state.
\<close>

definition rewriting_fns :: "fid \<Rightarrow> prog" where
  "rewriting_fns i =
     (if i = 5 then Call (VAccessor 0) (\<lambda>x. if x = VNum 1
                      then Write 0 (VNum 0) (Call (VAccessor 0) (\<lambda>y. Return y))
                      else Return VUndefined)
      else if i = 6 then Call (VAccessor 0) (\<lambda>x. Return x)
      else Return VUndefined)"

definition env_rewrite :: env where
  "env_rewrite = env_demo\<lparr>fns := rewriting_fns\<rparr>"

text \<open>After \<open>effect(f5)\<close> in \<open>st_sig\<close>, and then after \<open>set_0(1)\<close>.\<close>

definition st_watch :: state where
  "st_watch =
     \<lparr>sigs = [\<lparr>val = VNum 0, observers = [ComputeFn 0]\<rparr>],
      effs = [\<lparr>fn = JsFn (VFun 5), cleanup = VUndefined, compute_ref = ComputeFn 0,
               returned = True\<rparr>],
      Observer = None, noops = 0, nodes = [],
      trace = [EvSignal 0 (VNum 0), EvEffect 0 (JsFn (VFun 5)), EvFn 0, EvRead 0 (VNum 0)]\<rparr>"

definition st_written_back :: state where
  "st_written_back =
     \<lparr>sigs = [\<lparr>val = VNum 0, observers = [ComputeFn 0]\<rparr>],
      effs = [\<lparr>fn = JsFn (VFun 5), cleanup = VNum 0, compute_ref = ComputeFn 0,
               returned = True\<rparr>],
      Observer = None, noops = 0, nodes = [],
      trace = [EvSignal 0 (VNum 0), EvEffect 0 (JsFn (VFun 5)), EvFn 0, EvRead 0 (VNum 0),
               EvWrite 0 (VNum 1), EvInvoke (ComputeFn 0), EvFn 0, EvRead 0 (VNum 1),
               EvWrite 0 (VNum 0), EvInvoke (ComputeFn 0), EvFn 0, EvRead 0 (VNum 0),
               EvRead 0 (VNum 0)]\<rparr>"

text \<open>
  After \<open>effect(f6)\<close> in \<open>st_sig\<close>; then after \<open>set_0(1)\<close>; and the state in which the
  callback \<open>f6\<close> is started during that call of the setter.
\<close>

definition st_echo :: state where
  "st_echo =
     \<lparr>sigs = [\<lparr>val = VNum 0, observers = [ComputeFn 0]\<rparr>],
      effs = [\<lparr>fn = JsFn (VFun 6), cleanup = VNum 0, compute_ref = ComputeFn 0,
               returned = True\<rparr>],
      Observer = None, noops = 0, nodes = [],
      trace = [EvSignal 0 (VNum 0), EvEffect 0 (JsFn (VFun 6)), EvFn 0, EvRead 0 (VNum 0)]\<rparr>"

definition st_echo_written :: state where
  "st_echo_written =
     \<lparr>sigs = [\<lparr>val = VNum 1, observers = [ComputeFn 0]\<rparr>],
      effs = [\<lparr>fn = JsFn (VFun 6), cleanup = VNum 1, compute_ref = ComputeFn 0,
               returned = True\<rparr>],
      Observer = None, noops = 0, nodes = [],
      trace = [EvSignal 0 (VNum 0), EvEffect 0 (JsFn (VFun 6)), EvFn 0, EvRead 0 (VNum 0),
               EvWrite 0 (VNum 1), EvInvoke (ComputeFn 0), EvFn 0, EvRead 0 (VNum 1)]\<rparr>"

definition st_echo_running :: state where
  "st_echo_running =
     \<lparr>sigs = [\<lparr>val = VNum 1, observers = [ComputeFn 0]\<rparr>],
      effs = [\<lparr>fn = JsFn (VFun 6), cleanup = VNum 0, compute_ref = ComputeFn 0,
               returned = True\<rparr>],
      Observer = Some (ComputeFn 0), noops = 0, nodes = [],
      trace = [EvSignal 0 (VNum 0), EvEffect 0 (JsFn (VFun 6)), EvFn 0, EvRead 0 (VNum 0),
               EvWrite 0 (VNum 1), EvInvoke (ComputeFn 0), EvFn 0]\<rparr>"

section \<open>Every execution is a sequence of atomic changes\<close>


lemma ext_refl: "ext st st"
  by (simp add: ext_def)

lemma ext_trans: "ext a b \<Longrightarrow> ext b c \<Longrightarrow> ext a c"
  by (auto simp: ext_def)

lemma ext_steps: "ext a b \<Longrightarrow> step\<^sup>*\<^sup>* a b"
  by (simp add: ext_def)

lemma ext_step: "step a b \<Longrightarrow> Observer b = Observer a \<Longrightarrow> ext a b"
  by (simp add: ext_def)

lemma Observer_emit: "Observer (emit ev st) = Observer st"
  by (simp add: emit_def)

lemma Observer_signal: "Observer (snd (signal v st)) = Observer st"
  by (simp add: signal_def emit_def)

lemma Observer_accessor: "Observer (snd (accessor s st)) = Observer st"
  by (simp add: accessor_def emit_def Let_def split: option.splits)

lemma ext_emit: "quiet ev \<Longrightarrow> ext st (emit ev st)"
  by (rule ext_step[OF step_emit Observer_emit])

lemma ext_signal: "ext st (snd (signal v st))"
  by (rule ext_step[OF step_signal Observer_signal])

lemma ext_read: "s < length (sigs st) \<Longrightarrow> ext st (snd (accessor s st))"
  by (rule ext_step[OF step_read Observer_accessor])

lemma ext_write: "s < length (sigs st) \<Longrightarrow>
     ext st (emit (EvWrite s v) (st\<lparr>sigs := (sigs st)[s := (sigs st ! s)\<lparr>val := v\<rparr>]\<rparr>))"
  by (rule ext_step[OF step_write]) (simp_all add: emit_def)

lemma ext_effs: "length (effs st) \<le> length es \<Longrightarrow> ext st (st\<lparr>effs := es\<rparr>)"
  by (rule ext_step[OF step_effs]) simp_all

lemma ext_noops: "ext st (st\<lparr>noops := k\<rparr>)"
  by (rule ext_step[OF step_noops]) simp

lemma ext_Observer_None: "step\<^sup>*\<^sup>* st st' \<Longrightarrow> ext st (st'\<lparr>Observer := None\<rparr>)"
proof -
  assume a: "step\<^sup>*\<^sup>* st st'"
  have "step st' (st'\<lparr>Observer := None\<rparr>)" by (rule step_Observer)
  with a have "step\<^sup>*\<^sup>* st (st'\<lparr>Observer := None\<rparr>)" by (rule rtranclp.rtrancl_into_rtrancl)
  then show ?thesis by (simp add: ext_def)
qed

lemma and_then_rel:
  assumes "and_then m k = Some (r, st')"
    and "\<And>a b c. R a b \<Longrightarrow> R b c \<Longrightarrow> R a c"
    and "\<And>r1 st1. m = Some (r1, st1) \<Longrightarrow> R st st1"
    and "\<And>v st1. m = Some (Inr v, st1) \<Longrightarrow> k v st1 = Some (r, st') \<Longrightarrow> R st1 st'"
  shows "R st st'"
proof (cases m)
  case None
  with assms(1) show ?thesis by (simp add: and_then_def)
next
  case (Some p)
  obtain r1 st1 where p: "p = (r1, st1)" by (cases p)
  show ?thesis
  proof (cases r1)
    case (Inl e)
    with assms(1) Some p have "st' = st1" by (simp add: and_then_def)
    with assms(3) Some p show ?thesis by simp
  next
    case (Inr v)
    with assms(1) Some p have "k v st1 = Some (r, st')" by (simp add: and_then_def)
    moreover have "R st st1" using assms(3) Some p by simp
    moreover have "m = Some (Inr v, st1)" using Some p Inr by simp
    ultimately show ?thesis using assms(2) assms(4) by blast
  qed
qed

lemma and_then_ext:
  assumes "and_then m k = Some (r, st')"
    and "\<And>r1 st1. m = Some (r1, st1) \<Longrightarrow> ext st st1"
    and "\<And>v st1. m = Some (Inr v, st1) \<Longrightarrow> k v st1 = Some (r, st') \<Longrightarrow> ext st1 st'"
  shows "ext st st'"
  by (rule and_then_rel[where R = ext, OF assms(1) ext_trans assms(2) assms(3)])

lemma and_then_steps:
  assumes "and_then m k = Some (r, st')"
    and "\<And>r1 st1. m = Some (r1, st1) \<Longrightarrow> step\<^sup>*\<^sup>* st st1"
    and "\<And>v st1. m = Some (Inr v, st1) \<Longrightarrow> k v st1 = Some (r, st') \<Longrightarrow> step\<^sup>*\<^sup>* st1 st'"
  shows "step\<^sup>*\<^sup>* st st'"
  by (rule and_then_rel[where R = "step\<^sup>*\<^sup>*", OF assms(1) rtranclp_trans assms(2) assms(3)])

lemma dom_ext: "dom env c st = Some (r, st') \<Longrightarrow> attr_call c \<Longrightarrow> ext st st'"
  by (auto simp: dom_def intro: ext_emit split: if_splits)

lemma run_cleanup_ext:
  assumes run: "\<And>t s r s'. run t s = Some (r, s') \<Longrightarrow> ext s s'"
    and c: "run_cleanup run e st = Some (r, st')"
  shows "ext st st'"
proof (cases "truthy (cleanup (effs st ! e))")
  case True
  with c have "run (CallVal (cleanup (effs st ! e))) (emit (EvCleanup e (cleanup (effs st ! e))) st)
     = Some (r, st')" by (simp add: run_cleanup_def)
  from run[OF this] show ?thesis by (rule ext_trans[OF ext_emit, rotated]) simp
next
  case False
  with c show ?thesis by (simp add: run_cleanup_def ext_refl)
qed

lemma setter_ext:
  assumes run: "\<And>t s r s'. run t s = Some (r, s') \<Longrightarrow> ext s s'"
    and c: "setter run s v st = Some (r, st')" and s: "s < length (sigs st)"
  shows "ext st st'"
  using run[OF c[unfolded setter_def]] ext_write[OF s] by (rule ext_trans[rotated])

lemma compute_Observer:
  "compute run e st = Some (r, st') \<Longrightarrow> Observer st' = None"
  by (auto simp: compute_def ensuring_def split: option.splits)

lemma compute_ext:
  assumes run: "\<And>t s r s'. run t s = Some (r, s') \<Longrightarrow> ext s s'"
    and c: "compute run e st = Some (r, st')"
  shows "ext st st'"
proof -
  let ?inner = "\<lambda>st1. and_then (run (CallCb (fn (effs st1 ! e)))
                    (emit (EvFn e) (st1\<lparr>Observer := Some (compute_ref (effs st1 ! e))\<rparr>)))
          (\<lambda>v st2. Some (Inr VUndefined,
                          st2\<lparr>effs := (effs st2)[e := (effs st2 ! e)\<lparr>cleanup := v\<rparr>]\<rparr>))"
  let ?body = "and_then (run_cleanup run e st) (\<lambda>_ st1. ?inner st1)"
  from c obtain st2 where b: "?body = Some (r, st2)" and st': "st' = st2\<lparr>Observer := None\<rparr>"
    by (auto simp: compute_def ensuring_def split: option.splits)
  have steps_run: "\<And>t s r s'. run t s = Some (r, s') \<Longrightarrow> step\<^sup>*\<^sup>* s s'"
    using run by (simp add: ext_def)
  have inner: "step\<^sup>*\<^sup>* st1 st2" if i: "?inner st1 = Some (r, st2)" for st1
  proof (rule and_then_steps[OF i])
    fix r1 st1a
    assume "run (CallCb (fn (effs st1 ! e)))
              (emit (EvFn e) (st1\<lparr>Observer := Some (compute_ref (effs st1 ! e))\<rparr>)) = Some (r1, st1a)"
    from steps_run[OF this] have "step\<^sup>*\<^sup>* (emit (EvFn e) (st1\<lparr>Observer := Some (compute_ref (effs st1 ! e))\<rparr>)) st1a" .
    moreover have "step st1 (st1\<lparr>Observer := Some (compute_ref (effs st1 ! e))\<rparr>)"
      by (rule step_Observer)
    moreover have "step (st1\<lparr>Observer := Some (compute_ref (effs st1 ! e))\<rparr>)
        (emit (EvFn e) (st1\<lparr>Observer := Some (compute_ref (effs st1 ! e))\<rparr>))"
      by (rule step_emit) simp
    ultimately show "step\<^sup>*\<^sup>* st1 st1a"
      by (meson converse_rtranclp_into_rtranclp)
  next
    fix v st1a
    assume "Some (Inr VUndefined, st1a\<lparr>effs := (effs st1a)[e := (effs st1a ! e)\<lparr>cleanup := v\<rparr>]\<rparr>)
              = Some (r, st2)"
    then have "st2 = st1a\<lparr>effs := (effs st1a)[e := (effs st1a ! e)\<lparr>cleanup := v\<rparr>]\<rparr>" by simp
    then show "step\<^sup>*\<^sup>* st1a st2"
      using step_effs[of st1a "(effs st1a)[e := (effs st1a ! e)\<lparr>cleanup := v\<rparr>]"] by simp
  qed
  have "step\<^sup>*\<^sup>* st st2"
  proof (rule and_then_steps[OF b])
    show "\<And>r1 st1. run_cleanup run e st = Some (r1, st1) \<Longrightarrow> step\<^sup>*\<^sup>* st st1"
      using run_cleanup_ext[OF run] by (simp add: ext_def)
    show "\<And>v st1. ?inner st1 = Some (r, st2) \<Longrightarrow> step\<^sup>*\<^sup>* st1 st2"
      by (rule inner)
  qed
  then show ?thesis unfolding st' by (rule ext_Observer_None)
qed


lemma effect_ext:
  assumes run: "\<And>t s r s'. run t s = Some (r, s') \<Longrightarrow> ext s s'"
    and c: "effect run (JsFn f) st = Some (r, st')"
  shows "ext st st'"
proof -
  let ?cell = "\<lparr>fn = JsFn f, cleanup = VUndefined, compute_ref = ComputeFn (length (effs st)),
                 returned = False\<rparr>"
  let ?st0 = "emit (EvEffect (length (effs st)) (JsFn f)) (st\<lparr>effs := effs st @ [?cell]\<rparr>)"
  have c': "and_then (run (Compute (length (effs st))) ?st0)
        (\<lambda>_ st1. Some (Inr (VDisposer (length (effs st))),
           st1\<lparr>effs := (effs st1)[length (effs st) := (effs st1 ! length (effs st))\<lparr>returned := True\<rparr>]\<rparr>))
        = Some (r, st')"
    using c by (simp add: effect_def Let_def)
  have a: "ext st ?st0"
    by (rule ext_trans[OF ext_effs ext_emit]) simp_all
  show ?thesis
  proof (rule ext_trans[OF a], rule and_then_ext[OF c'])
    show "\<And>r1 st1. run (Compute (length (effs st))) ?st0 = Some (r1, st1) \<Longrightarrow> ext ?st0 st1"
      by (rule run)
  next
    fix v st1
    assume "Some (Inr (VDisposer (length (effs st))),
           st1\<lparr>effs := (effs st1)[length (effs st) := (effs st1 ! length (effs st))\<lparr>returned := True\<rparr>]\<rparr>)
        = Some (r, st')"
    then have "st' = st1\<lparr>effs := (effs st1)[length (effs st) := (effs st1 ! length (effs st))\<lparr>returned := True\<rparr>]\<rparr>"
      by simp
    then show "ext st1 st'" by (simp add: ext_effs)
  qed
qed

lemma disposer_ext:
  assumes run: "\<And>t s r s'. run t s = Some (r, s') \<Longrightarrow> ext s s'"
    and c: "disposer run e st = Some (r, st')"
  shows "ext st st'"
proof (rule ext_trans[OF ext_emit[of "EvDispose e"]], simp,
    rule and_then_ext[OF c[unfolded disposer_def]])
  show "\<And>r1 st1. run_cleanup run e (emit (EvDispose e) st) = Some (r1, st1)
          \<Longrightarrow> ext (emit (EvDispose e) st) st1"
    by (rule run_cleanup_ext[OF run])
next
  fix v st1
  assume "Some (Inr VUndefined,
             st1\<lparr>effs := (effs st1)[e := (effs st1 ! e)\<lparr>compute_ref := NoopFn (noops st1)\<rparr>],
                 noops := Suc (noops st1)\<rparr>) = Some (r, st')"
  then have "st' = (st1\<lparr>effs := (effs st1)[e := (effs st1 ! e)\<lparr>compute_ref := NoopFn (noops st1)\<rparr>]\<rparr>)
                 \<lparr>noops := Suc (noops st1)\<rparr>" by simp
  then show "ext st1 st'"
    using ext_trans[OF ext_effs ext_noops] by simp
qed

lemma swallow_state: "swallow m = Some (r, st') \<Longrightarrow> \<exists>r1. m = Some (r1, st')"
  by (auto simp: swallow_def split: option.splits sum.splits)

lemma setOrRemoveAttr_ext:
  assumes run: "\<And>t s r s'. run t s = Some (r, s') \<Longrightarrow> ext s s'"
    and c: "setOrRemoveAttr env run ns el key raw st = Some (r, st')"
  shows "ext st st'"
proof (rule and_then_ext[OF c[unfolded setOrRemoveAttr_def]])
  show "\<And>r1 st1. (if is_function raw then run (CallVal raw) st else Some (Inr raw, st)) = Some (r1, st1)
        \<Longrightarrow> ext st st1"
    by (auto split: if_splits intro: run ext_refl)
next
  fix v st1
  let ?ns = "attr_ns ns (namespaceURI st1 el) key"
  assume a: "(let attrNS = attr_ns ns (namespaceURI st1 el) key in
          if removes v then
            swallow
              (if or_else attrNS None \<noteq> None \<and> attrNS \<noteq> Some ''null''
               then dom env (RemoveAttributeNS el (the attrNS) (strip_prefix key)) st1
               else and_then (dom env (RemoveAttribute el key) st1)
                      (\<lambda>_ st2. dom env (RemoveAttribute el (strip_prefix key)) st2))
          else
            (case dom env (SetAttributeNS el attrNS key (attr_text env key v)) st1 of
               Some (Inl e, st2) \<Rightarrow> dom env (SetAttribute el key (attr_text env key v)) st2
             | other \<Rightarrow> other)) = Some (r, st')"
  show "ext st1 st'"
  proof (cases "removes v")
    case True
    with a have "swallow (if or_else ?ns None \<noteq> None \<and> ?ns \<noteq> Some ''null''
               then dom env (RemoveAttributeNS el (the ?ns) (strip_prefix key)) st1
               else and_then (dom env (RemoveAttribute el key) st1)
                      (\<lambda>_ st2. dom env (RemoveAttribute el (strip_prefix key)) st2)) = Some (r, st')"
      by (simp add: Let_def)
    from swallow_state[OF this] obtain r1 where
      b: "(if or_else ?ns None \<noteq> None \<and> ?ns \<noteq> Some ''null''
               then dom env (RemoveAttributeNS el (the ?ns) (strip_prefix key)) st1
               else and_then (dom env (RemoveAttribute el key) st1)
                      (\<lambda>_ st2. dom env (RemoveAttribute el (strip_prefix key)) st2)) = Some (r1, st')"
      by blast
    show ?thesis
    proof (cases "or_else ?ns None \<noteq> None \<and> ?ns \<noteq> Some ''null''")
      case True
      with b have "dom env (RemoveAttributeNS el (the ?ns) (strip_prefix key)) st1 = Some (r1, st')"
        by simp
      then show ?thesis by (rule dom_ext) simp
    next
      case False
      with b have "and_then (dom env (RemoveAttribute el key) st1)
                      (\<lambda>_ st2. dom env (RemoveAttribute el (strip_prefix key)) st2) = Some (r1, st')"
        by (auto split: if_splits)
      then show ?thesis
      proof (rule and_then_ext)
        show "\<And>r1 st1a. dom env (RemoveAttribute el key) st1 = Some (r1, st1a) \<Longrightarrow> ext st1 st1a"
          by (erule dom_ext) simp
        show "\<And>v st1a. dom env (RemoveAttribute el (strip_prefix key)) st1a = Some (r1, st')
            \<Longrightarrow> ext st1a st'"
          by (erule dom_ext) simp
      qed
    qed
  next
    case False
    with a have b: "(case dom env (SetAttributeNS el ?ns key (attr_text env key v)) st1 of
               Some (Inl e, st2) \<Rightarrow> dom env (SetAttribute el key (attr_text env key v)) st2
             | other \<Rightarrow> other) = Some (r, st')" by (simp add: Let_def)
    show ?thesis
    proof (cases "dom env (SetAttributeNS el ?ns key (attr_text env key v)) st1")
      case None
      with b show ?thesis by simp
    next
      case (Some p)
      obtain r2 st2 where p: "p = (r2, st2)" by (cases p)
      have e1: "ext st1 st2" using Some p by (auto elim: dom_ext)
      show ?thesis
      proof (cases r2)
        case (Inl e)
        with b Some p have "dom env (SetAttribute el key (attr_text env key v)) st2 = Some (r, st')"
          by simp
        then have "ext st2 st'" by (rule dom_ext) simp
        with e1 show ?thesis by (rule ext_trans)
      next
        case (Inr x)
        with b Some p have "st' = st2" by simp
        with e1 show ?thesis by simp
      qed
    qed
  qed
qed

lemma exec_ext: "exec env n t st = Some (r, st') \<Longrightarrow> ext st st'"
proof (induction n arbitrary: t st r st')
  case 0
  then show ?case by simp
next
  case (Suc n)
  have IH: "\<And>t s r s'. (\<lambda>t s'. exec env n t s') t s = Some (r, s') \<Longrightarrow> ext s s'"
    using Suc.IH by simp
  note ex = Suc.prems
  show ?case
  proof (cases t)
    case (Run p)
    show ?thesis
    proof (cases p)
      case (Return v)
      with ex Run show ?thesis by (simp add: ext_refl)
    next
      case (Throw v)
      with ex Run show ?thesis by (simp add: ext_refl)
    next
      case (Call f k)
      with ex Run have "and_then (exec env n (CallVal f) st) (\<lambda>v st'. exec env n (Run (k v)) st')
        = Some (r, st')" by simp
      then show ?thesis by (rule and_then_ext) (auto dest: Suc.IH)
    next
      case (Write s v q)
      show ?thesis
      proof (cases "s < length (sigs st)")
        case True
        with ex Run Write
        have "and_then (setter (\<lambda>t s'. exec env n t s') s v st) (\<lambda>_ st'. exec env n (Run q) st')
          = Some (r, st')" by simp
        then show ?thesis
          by (rule and_then_ext) (auto dest: Suc.IH intro: setter_ext[OF IH _ True])
      next
        case False
        with ex Run Write show ?thesis by (simp add: ext_refl)
      qed
    next
      case (NewSignal v k)
      with ex Run have "exec env n (Run (k (fst (signal v st)))) (snd (signal v st)) = Some (r, st')"
        by (simp add: case_prod_unfold)
      from Suc.IH[OF this] show ?thesis by (rule ext_trans[OF ext_signal])
    next
      case (NewEffect f k)
      with ex Run have "and_then (exec env n (Effect f) st) (\<lambda>d st'. exec env n (Run (k d)) st')
        = Some (r, st')" by simp
      then show ?thesis by (rule and_then_ext) (auto dest: Suc.IH)
    qed
  next
    case (CallVal f)
    show ?thesis
    proof (cases f)
      case (VAccessor s)
      show ?thesis
      proof (cases "s < length (sigs st)")
        case True
        with ex CallVal VAccessor have "snd (accessor s st) = st'" by simp
        with ext_read[OF True] show ?thesis by simp
      next
        case False
        with ex CallVal VAccessor show ?thesis by (simp add: ext_refl)
      qed
    next
      case (VSetter s)
      with ex CallVal show ?thesis
        by (auto split: if_splits intro: ext_refl setter_ext[OF IH])
    next
      case (VFun i)
      with ex CallVal show ?thesis by (auto dest: Suc.IH)
    next
      case (VDisposer e)
      with ex CallVal show ?thesis by (auto split: if_splits intro: ext_refl dest: Suc.IH)
    qed (use ex CallVal in \<open>auto intro: ext_refl\<close>)
  next
    case (CallCb cb)
    show ?thesis
    proof (cases cb)
      case (TextEffect tn child)
      with ex CallCb have "and_then (exec env n (CallVal child) st)
            (\<lambda>v st'. dom env (SetTextContent tn (js_String env v)) st') = Some (r, st')" by simp
      then show ?thesis by (rule and_then_ext) (auto dest: Suc.IH elim: dom_ext)
    qed (use ex CallCb in \<open>auto dest: Suc.IH\<close>)
  next
    case (Notify s i)
    show ?thesis
    proof (cases "i < length (observers (sigs st ! s))")
      case True
      with ex Notify have "and_then (exec env n (Invoke (observers (sigs st ! s) ! i)) st)
             (\<lambda>_ st'. exec env n (Notify s (Suc i)) st') = Some (r, st')" by simp
      then show ?thesis by (rule and_then_ext) (auto dest: Suc.IH)
    next
      case False
      with ex Notify show ?thesis by (simp add: ext_refl)
    qed
  next
    case (Invoke ob)
    show ?thesis
    proof (cases ob)
      case (ComputeFn e)
      with ex Invoke have "exec env n (Compute e) (emit (EvInvoke ob) st) = Some (r, st')" by simp
      from Suc.IH[OF this] show ?thesis by (rule ext_trans[OF ext_emit, rotated]) simp
    next
      case (NoopFn k)
      with ex Invoke show ?thesis by (auto intro: ext_emit)
    qed
  next
    case (Compute e)
    with ex show ?thesis by (auto intro: compute_ext[OF IH])
  next
    case (Effect f)
    with ex show ?thesis by (auto intro: effect_ext[OF IH])
  next
    case (Dispose e)
    with ex show ?thesis by (auto intro: disposer_ext[OF IH])
  next
    case (SetAttr ns el key v)
    with ex show ?thesis by (auto intro: setOrRemoveAttr_ext[OF IH])
  qed
qed

section \<open>The history and the signal cells agree\<close>

lemma since_self: "since st st = []"
  by (simp add: since_def)

lemma since_append: "trace st' = trace st @ seg \<Longrightarrow> since st st' = seg"
  by (simp add: since_def)

lemma prefix_since: "prefix (trace st) (trace st') \<Longrightarrow> trace st' = trace st @ since st st'"
  by (auto simp: since_def prefix_def)

lemma since_trans:
  "prefix (trace a) (trace b) \<Longrightarrow> prefix (trace b) (trace c) \<Longrightarrow>
     since a c = since a b @ since b c"
  by (auto simp: since_def prefix_def)

lemma last_val_append: "last_val s cur (a @ b) = last_val s (last_val s cur a) b"
  by (induction s cur a rule: last_val.induct) auto

lemma reads_latest_append:
  "reads_latest s cur (a @ b) \<longleftrightarrow> reads_latest s cur a \<and> reads_latest s (last_val s cur a) b"
  by (induction s cur a rule: reads_latest.induct) auto

lemma sound_refl: "sound st st"
  by (simp add: sound_def since_self)

lemma sound_trans:
  assumes ab: "sound a b" and bc: "sound b c"
  shows "sound a c"
proof -
  have p: "prefix (trace a) (trace b)" "prefix (trace b) (trace c)"
    using ab bc by (simp_all add: sound_def)
  have s: "since a c = since a b @ since b c" by (rule since_trans[OF p])
  have len: "length (sigs a) \<le> length (sigs b)" using ab by (simp add: sound_def)
  have per: "prefix (observers (sigs a ! s)) (observers (sigs c ! s))
           \<and> reads_latest s (val (sigs a ! s)) (since a c)
           \<and> val (sigs c ! s) = last_val s (val (sigs a ! s)) (since a c)
           \<and> (list_all (\<lambda>ev. \<not> reads s ev) (since a c)
                \<longrightarrow> observers (sigs c ! s) = observers (sigs a ! s))"
    if sa: "s < length (sigs a)" for s
  proof -
    from sa len have sb: "s < length (sigs b)" by simp
    from ab sa have A: "prefix (observers (sigs a ! s)) (observers (sigs b ! s))"
      "reads_latest s (val (sigs a ! s)) (since a b)"
      "val (sigs b ! s) = last_val s (val (sigs a ! s)) (since a b)"
      "list_all (\<lambda>ev. \<not> reads s ev) (since a b)
                \<longrightarrow> observers (sigs b ! s) = observers (sigs a ! s)"
      by (simp_all add: sound_def)
    from bc sb have B: "prefix (observers (sigs b ! s)) (observers (sigs c ! s))"
      "reads_latest s (val (sigs b ! s)) (since b c)"
      "val (sigs c ! s) = last_val s (val (sigs b ! s)) (since b c)"
      "list_all (\<lambda>ev. \<not> reads s ev) (since b c)
                \<longrightarrow> observers (sigs c ! s) = observers (sigs b ! s)"
      by (simp_all add: sound_def)
    show ?thesis
      using A B by (auto simp: s last_val_append reads_latest_append intro: prefix_order.trans)
  qed
  show ?thesis
    unfolding sound_def
  proof (intro conjI allI impI)
    show "prefix (trace a) (trace c)" using p by (rule prefix_order.trans)
    show "nodes c = nodes a" using ab bc by (simp add: sound_def)
    show "length (sigs a) \<le> length (sigs c)" using ab bc by (simp add: sound_def)
    show "length (effs a) \<le> length (effs c)" using ab bc by (simp add: sound_def)
    show "list_all core (since a c)" using ab bc by (simp add: sound_def s)
  qed (use per in auto)
qed

lemma sound_same_sigs:
  assumes "trace st' = trace st @ evs" "list_all quiet evs" "sigs st' = sigs st"
    "nodes st' = nodes st" "length (effs st) \<le> length (effs st')"
  shows "sound st st'"
proof -
  have q: "list_all core evs" using assms(2) by (induction evs) (auto elim: quiet.elims)
  have r: "list_all (\<lambda>ev. \<not> reads s ev \<and> \<not> writes s ev) evs" for s
    using assms(2) by (induction evs) (auto elim: quiet.elims)
  have l: "last_val s cur evs = cur" for s cur
    using r[of s] by (induction s cur evs rule: last_val.induct) auto
  have rl: "reads_latest s cur evs" for s cur
    using r[of s] by (induction s cur evs rule: reads_latest.induct) auto
  show ?thesis
    using assms q by (simp add: sound_def since_append l rl)
qed

lemma step_sound: "step st st' \<Longrightarrow> sound st st'"
proof (induction rule: step.induct)
  case (step_signal st v)
  show ?case
    by (auto simp: sound_def signal_def emit_def since_def nth_append)
next
  case (step_read s st)
  have t: "trace (snd (accessor s st)) = trace st @ [EvRead s (val (sigs st ! s))]"
    by (simp add: accessor_def emit_def Let_def split: option.splits)
  have n: "nodes (snd (accessor s st)) = nodes st" "effs (snd (accessor s st)) = effs st"
    "length (sigs (snd (accessor s st))) = length (sigs st)"
    by (simp_all add: accessor_def emit_def Let_def split: option.splits)
  have v: "val (sigs (snd (accessor s st)) ! s') = val (sigs st ! s')" if "s' < length (sigs st)" for s'
    using that step_read by (cases "s' = s") (simp_all add: accessor_def emit_def Let_def split: option.splits)
  have o: "prefix (observers (sigs st ! s')) (observers (sigs (snd (accessor s st)) ! s'))"
    if "s' < length (sigs st)" for s'
    using that step_read
    by (cases "s' = s") (simp_all add: accessor_def emit_def Let_def set_add_def split: option.splits)
  have o': "observers (sigs (snd (accessor s st)) ! s') = observers (sigs st ! s')"
    if "s' < length (sigs st)" "s' \<noteq> s" for s'
    using that step_read
    by (simp_all add: accessor_def emit_def Let_def set_add_def split: option.splits)
  show ?case
    unfolding sound_def since_append[OF t]
    using n v o o' t by auto
next
  case (step_write s st v)
  show ?case
    by (auto simp: sound_def emit_def since_def nth_list_update)
next
  case (step_emit ev st)
  show ?case
    by (rule sound_same_sigs[where evs = "[ev]"]) (use step_emit in \<open>simp_all add: emit_def\<close>)
next
  case (step_Observer st ob)
  show ?case by (rule sound_same_sigs[where evs = "[]"]) simp_all
next
  case (step_effs st es)
  then show ?case by (intro sound_same_sigs[where evs = "[]"]) simp_all
next
  case (step_noops st k)
  show ?case by (rule sound_same_sigs[where evs = "[]"]) simp_all
qed

lemma steps_sound: "step\<^sup>*\<^sup>* st st' \<Longrightarrow> sound st st'"
  by (induction rule: rtranclp_induct) (auto intro: sound_refl sound_trans step_sound)

lemma exec_sound: "exec env n t st = Some (r, st') \<Longrightarrow> sound st st'"
  by (rule steps_sound[OF ext_steps[OF exec_ext]])

section \<open>The setter reaches every observer\<close>

lemma exec_prefix: "exec env n t st = Some (r, st') \<Longrightarrow> prefix (trace st) (trace st')"
  using exec_sound by (auto simp: sound_def)

lemma exec_trace: "exec env n t st = Some (r, st') \<Longrightarrow> trace st' = trace st @ since st st'"
  by (rule prefix_since[OF exec_prefix])

lemma and_then_Inr:
  "and_then m k = Some (Inr v, st') \<Longrightarrow> \<exists>v1 st1. m = Some (Inr v1, st1) \<and> k v1 st1 = Some (Inr v, st')"
  by (auto simp: and_then_def split: option.splits sum.splits)

lemma compute_normal:
  assumes "compute run e st = Some (Inr x, st')"
  shows "\<exists>y st1 v st2.
      run_cleanup run e st = Some (Inr y, st1)
    \<and> run (CallCb (fn (effs st1 ! e)))
          (emit (EvFn e) (st1\<lparr>Observer := Some (compute_ref (effs st1 ! e))\<rparr>)) = Some (Inr v, st2)
    \<and> st' = st2\<lparr>effs := (effs st2)[e := (effs st2 ! e)\<lparr>cleanup := v\<rparr>], Observer := None\<rparr>"
  using assms
  by (auto simp: compute_def ensuring_def and_then_def split: option.splits sum.splits)

lemma run_cleanup_prefix:
  assumes run: "\<And>t s r s'. run t s = Some (r, s') \<Longrightarrow> prefix (trace s) (trace s')"
    and c: "run_cleanup run e st = Some (r, st')"
  shows "prefix (trace st) (trace st')"
proof (cases "truthy (cleanup (effs st ! e))")
  case True
  with c have "run (CallVal (cleanup (effs st ! e))) (emit (EvCleanup e (cleanup (effs st ! e))) st)
     = Some (r, st')" by (simp add: run_cleanup_def)
  from run[OF this] show ?thesis by (auto simp: emit_def prefix_def)
next
  case False
  with c show ?thesis by (simp add: run_cleanup_def)
qed

lemma invoke_normal:
  assumes "exec env n (Invoke ob) st = Some (Inr v, st')"
  shows "EvInvoke ob \<in> set (since st st') \<and> (\<forall>e. ob = ComputeFn e \<longrightarrow> EvFn e \<in> set (since st st'))"
proof (cases n)
  case 0
  with assms show ?thesis by simp
next
  case (Suc m)
  show ?thesis
  proof (cases ob)
    case (NoopFn k)
    with assms Suc show ?thesis by (auto simp: emit_def since_def)
  next
    case (ComputeFn e)
    with assms Suc have c: "exec env m (Compute e) (emit (EvInvoke ob) st) = Some (Inr v, st')"
      by simp
    from exec_prefix[OF c] obtain seg where seg: "trace st' = trace st @ EvInvoke ob # seg"
      by (auto simp: emit_def prefix_def)
    have 1: "EvInvoke ob \<in> set (since st st')" using seg by (simp add: since_def)
    have 2: "EvFn e \<in> set (since st st')"
    proof (cases m)
      case 0
      with c show ?thesis by simp
    next
      case (Suc k)
      with c have "compute (\<lambda>t s'. exec env k t s') e (emit (EvInvoke ob) st) = Some (Inr v, st')"
        by simp
      from compute_normal[OF this] obtain y st1 w st2 where
        a: "run_cleanup (\<lambda>t s'. exec env k t s') e (emit (EvInvoke ob) st) = Some (Inr y, st1)"
        and b: "exec env k (CallCb (fn (effs st1 ! e)))
          (emit (EvFn e) (st1\<lparr>Observer := Some (compute_ref (effs st1 ! e))\<rparr>)) = Some (Inr w, st2)"
        and st': "st' = st2\<lparr>effs := (effs st2)[e := (effs st2 ! e)\<lparr>cleanup := w\<rparr>], Observer := None\<rparr>"
        by blast
      have "prefix (trace (emit (EvInvoke ob) st)) (trace st1)"
        by (rule run_cleanup_prefix[OF _ a]) (rule exec_prefix)
      then obtain s1 where s1: "trace st1 = trace st @ EvInvoke ob # s1"
        by (auto simp: emit_def prefix_def)
      from exec_prefix[OF b] obtain s2 where "trace st2 = trace st1 @ EvFn e # s2"
        by (auto simp: emit_def prefix_def)
      with s1 st' show ?thesis by (simp add: since_def)
    qed
    from 1 2 ComputeFn show ?thesis by simp
  qed
qed

lemma notify_invokes:
  "exec env n (Notify s i) st = Some (Inr v, st') \<Longrightarrow> s < length (sigs st) \<Longrightarrow>
     i \<le> j \<Longrightarrow> j < length (observers (sigs st' ! s)) \<Longrightarrow>
     EvInvoke (observers (sigs st' ! s) ! j) \<in> set (since st st')
     \<and> (\<forall>e. observers (sigs st' ! s) ! j = ComputeFn e \<longrightarrow> EvFn e \<in> set (since st st'))"
proof (induction n arbitrary: i st)
  case 0
  then show ?case by simp
next
  case (Suc n)
  show ?case
  proof (cases "i < length (observers (sigs st ! s))")
    case False
    with Suc.prems show ?thesis by simp
  next
    case True
    with Suc.prems(1) have "and_then (exec env n (Invoke (observers (sigs st ! s) ! i)) st)
             (\<lambda>_ st'. exec env n (Notify s (Suc i)) st') = Some (Inr v, st')" by simp
    from and_then_Inr[OF this] obtain v1 st1 where
      a: "exec env n (Invoke (observers (sigs st ! s) ! i)) st = Some (Inr v1, st1)"
      and b: "exec env n (Notify s (Suc i)) st1 = Some (Inr v, st')" by blast
    have sa: "sound st st1" by (rule exec_sound[OF a])
    have sb: "sound st1 st'" by (rule exec_sound[OF b])
    have s1: "s < length (sigs st1)" using sa Suc.prems(2) by (simp add: sound_def)
    have pa: "prefix (trace st) (trace st1)" and pb: "prefix (trace st1) (trace st')"
      using sa sb by (simp_all add: sound_def)
    have sc: "since st st' = since st st1 @ since st1 st'" by (rule since_trans[OF pa pb])
    show ?thesis
    proof (cases "j = i")
      case False
      with Suc.prems(3) have "Suc i \<le> j" by simp
      from Suc.IH[OF b s1 this Suc.prems(4)] show ?thesis by (auto simp: sc)
    next
      case j: True
      have "prefix (observers (sigs st ! s)) (observers (sigs st1 ! s))"
        using sa Suc.prems(2) by (simp add: sound_def)
      moreover have "prefix (observers (sigs st1 ! s)) (observers (sigs st' ! s))"
        using sb s1 by (simp add: sound_def)
      ultimately have "prefix (observers (sigs st ! s)) (observers (sigs st' ! s))"
        by (rule prefix_order.trans)
      with True have "observers (sigs st' ! s) ! i = observers (sigs st ! s) ! i"
        by (auto simp: prefix_def nth_append)
      with invoke_normal[OF a] j show ?thesis by (auto simp: sc)
    qed
  qed
qed

lemma setter_invokes:
  assumes c: "setter (\<lambda>t s'. exec env n t s') s v st = Some (Inr x, st')"
    and s: "s < length (sigs st)"
    and ob: "ob \<in> set (observers (sigs st' ! s))"
  shows "trace st' = trace st @ since st st'
       \<and> EvInvoke ob \<in> set (since st st')
       \<and> (\<forall>e. ob = ComputeFn e \<longrightarrow> EvFn e \<in> set (since st st'))"
proof -
  let ?st0 = "emit (EvWrite s v) (st\<lparr>sigs := (sigs st)[s := (sigs st ! s)\<lparr>val := v\<rparr>]\<rparr>)"
  from c have n: "exec env n (Notify s 0) ?st0 = Some (Inr x, st')" by (simp add: setter_def)
  from ob obtain j where j: "j < length (observers (sigs st' ! s))" "observers (sigs st' ! s) ! j = ob"
    by (auto simp: in_set_conv_nth)
  have s0: "s < length (sigs ?st0)" using s by (simp add: emit_def)
  from notify_invokes[OF n s0 _ j(1), of ] j(2)
  have i: "EvInvoke ob \<in> set (since ?st0 st')
     \<and> (\<forall>e. ob = ComputeFn e \<longrightarrow> EvFn e \<in> set (since ?st0 st'))" by simp
  from exec_prefix[OF n] obtain seg where seg: "trace st' = trace st @ EvWrite s v # seg"
    by (auto simp: emit_def prefix_def)
  then have "since ?st0 st' = seg" "since st st' = EvWrite s v # seg"
    by (simp_all add: since_def emit_def)
  with i seg show ?thesis by auto
qed

section \<open>Frame lemmas for signals\<close>

lemma last_val_no_writes: "list_all (\<lambda>ev. \<not> writes s ev) tr \<Longrightarrow> last_val s cur tr = cur"
  by (induction s cur tr rule: last_val.induct) auto

lemma reads_latest_no_writes:
  "reads_latest s cur tr \<Longrightarrow> list_all (\<lambda>ev. \<not> writes s ev) tr \<Longrightarrow> EvRead s x \<in> set tr \<Longrightarrow> x = cur"
  by (induction s cur tr rule: reads_latest.induct) (auto split: if_splits)

lemma sound_trace: "sound st st' \<Longrightarrow> trace st' = trace st @ since st st'"
  unfolding sound_def by (blast intro: prefix_since)

lemma sound_core: "sound st st' \<Longrightarrow> list_all core (since st st')"
  unfolding sound_def by blast

lemma sound_sig:
  "sound st st' \<Longrightarrow> s < length (sigs st) \<Longrightarrow>
     reads_latest s (val (sigs st ! s)) (since st st')
     \<and> val (sigs st' ! s) = last_val s (val (sigs st ! s)) (since st st')
     \<and> (list_all (\<lambda>ev. \<not> reads s ev) (since st st')
          \<longrightarrow> observers (sigs st' ! s) = observers (sigs st ! s))"
  unfolding sound_def by blast

lemma exec_frame:
  assumes "exec env n t st = Some (r, st')" and "s < length (sigs st)"
  shows "(list_all (\<lambda>ev. \<not> reads s ev) (since st st')
            \<longrightarrow> observers (sigs st' ! s) = observers (sigs st ! s))
       \<and> (list_all (\<lambda>ev. \<not> writes s ev) (since st st')
            \<longrightarrow> val (sigs st' ! s) = val (sigs st ! s))"
proof -
  note a = sound_sig[OF exec_sound[OF assms(1)] assms(2)]
  from a have "val (sigs st' ! s) = last_val s (val (sigs st ! s)) (since st st')" by simp
  then have "list_all (\<lambda>ev. \<not> writes s ev) (since st st')
            \<longrightarrow> val (sigs st' ! s) = val (sigs st ! s)"
    by (simp add: last_val_no_writes)
  with a show ?thesis by simp
qed

lemma setter_sound:
  assumes c: "setter (\<lambda>t s'. exec env n t s') s v st = Some (r, st')" and s: "s < length (sigs st)"
  shows "\<exists>seg. trace st' = trace st @ EvWrite s v # seg \<and> since st st' = EvWrite s v # seg
          \<and> list_all core seg
          \<and> reads_latest s v seg \<and> val (sigs st' ! s) = last_val s v seg
          \<and> (list_all (\<lambda>ev. \<not> reads s ev) seg
                \<longrightarrow> observers (sigs st' ! s) = observers (sigs st ! s))
          \<and> (\<forall>s'. s' \<noteq> s \<longrightarrow> s' < length (sigs st) \<longrightarrow>
               (list_all (\<lambda>ev. \<not> reads s' ev) seg
                  \<longrightarrow> observers (sigs st' ! s') = observers (sigs st ! s'))
             \<and> (list_all (\<lambda>ev. \<not> writes s' ev) seg
                  \<longrightarrow> val (sigs st' ! s') = val (sigs st ! s')))"
proof -
  define st0 where "st0 = emit (EvWrite s v) (st\<lparr>sigs := (sigs st)[s := (sigs st ! s)\<lparr>val := v\<rparr>]\<rparr>)"
  from c have n: "exec env n (Notify s 0) st0 = Some (r, st')" by (simp add: setter_def st0_def)
  have so: "sound st0 st'" by (rule exec_sound[OF n])
  have t0: "trace st0 = trace st @ [EvWrite s v]" by (simp add: emit_def st0_def)
  have tr: "trace st' = trace st0 @ since st0 st'" by (rule sound_trace[OF so])
  have l0: "length (sigs st0) = length (sigs st)" by (simp add: emit_def st0_def)
  have c0: "val (sigs st0 ! s) = v" "observers (sigs st0 ! s) = observers (sigs st ! s)"
    using s by (simp_all add: emit_def st0_def)
  have o0: "sigs st0 ! s' = sigs st ! s'" if "s' \<noteq> s" for s'
    using that by (simp add: emit_def st0_def)
  have s0: "s < length (sigs st0)" using s l0 by simp
  note own = sound_sig[OF so s0, unfolded c0]
  have 1: "trace st' = trace st @ EvWrite s v # since st0 st'" using tr t0 by simp
  have 2: "since st st' = EvWrite s v # since st0 st'" by (rule since_append[OF 1])
  have 3: "s' \<noteq> s \<longrightarrow> s' < length (sigs st) \<longrightarrow>
               (list_all (\<lambda>ev. \<not> reads s' ev) (since st0 st')
                  \<longrightarrow> observers (sigs st' ! s') = observers (sigs st ! s'))
             \<and> (list_all (\<lambda>ev. \<not> writes s' ev) (since st0 st')
                  \<longrightarrow> val (sigs st' ! s') = val (sigs st ! s'))" for s'
  proof (intro impI)
    assume a: "s' \<noteq> s" "s' < length (sigs st)"
    then have "s' < length (sigs st0)" using l0 by simp
    from exec_frame[OF n this] show "(list_all (\<lambda>ev. \<not> reads s' ev) (since st0 st')
                  \<longrightarrow> observers (sigs st' ! s') = observers (sigs st ! s'))
             \<and> (list_all (\<lambda>ev. \<not> writes s' ev) (since st0 st')
                  \<longrightarrow> val (sigs st' ! s') = val (sigs st ! s'))"
      unfolding o0[OF a(1)] .
  qed
  from 1 2 sound_core[OF so] own 3 show ?thesis by blast
qed

section \<open>The global pointer after a run\<close>

lemma effect_Observer:
  assumes run: "\<And>e s r s'. run (Compute e) s = Some (r, s') \<Longrightarrow> Observer s' = None"
    and c: "effect run cb st = Some (r, st')"
  shows "Observer st' = None"
proof -
  let ?e = "length (effs st)"
  let ?st0 = "emit (EvEffect ?e cb)
              (st\<lparr>effs := effs st @
                 [\<lparr>fn = cb, cleanup = VUndefined, compute_ref = ComputeFn ?e, returned = False\<rparr>]\<rparr>)"
  from c have c': "and_then (run (Compute ?e) ?st0)
        (\<lambda>_ st1. Some (Inr (VDisposer ?e),
           st1\<lparr>effs := (effs st1)[?e := (effs st1 ! ?e)\<lparr>returned := True\<rparr>]\<rparr>)) = Some (r, st')"
    by (simp add: effect_def Let_def)
  show ?thesis
  proof (cases "run (Compute ?e) ?st0")
    case None
    with c' show ?thesis by (simp add: and_then_def)
  next
    case (Some p)
    obtain r1 st1 where p: "p = (r1, st1)" by (cases p)
    have o: "Observer st1 = None" using run Some p by simp
    show ?thesis
    proof (cases r1)
      case (Inl err)
      with c' Some p have "st' = st1" by (simp add: and_then_def)
      with o show ?thesis by simp
    next
      case (Inr v)
      with c' Some p have "st' = st1\<lparr>effs := (effs st1)[?e := (effs st1 ! ?e)\<lparr>returned := True\<rparr>]\<rparr>"
        by (simp add: and_then_def)
      with o show ?thesis by simp
    qed
  qed
qed

lemma exec_compute_Observer: "exec env n (Compute e) st = Some (r, st') \<Longrightarrow> Observer st' = None"
  by (cases n) (auto dest: compute_Observer)

lemma exec_idle: "exec env n t st = Some (r, st') \<Longrightarrow> Observer st = None \<Longrightarrow> Observer st' = None"
  using exec_ext[of env n t st r st'] by (auto simp: ext_def)

section \<open>The shape of a run and of a disposal\<close>

lemma is_function_truthy: "is_function v \<Longrightarrow> truthy v"
  by (cases v) simp_all

lemma sound_effs: "sound st st' \<Longrightarrow> length (effs st) \<le> length (effs st')"
  unfolding sound_def by blast

lemma exec_effs: "exec env n t st = Some (r, st') \<Longrightarrow> length (effs st) \<le> length (effs st')"
  by (rule sound_effs[OF exec_sound])

lemma exec_since_emit:
  assumes "exec env n t (emit ev st) = Some (r, st')"
  shows "trace st' = trace st @ ev # since (emit ev st) st'"
  using exec_trace[OF assms] by (simp add: emit_def)

lemma compute_run_shape:
  assumes c: "exec env (Suc n) (Compute e) st = Some (Inr x, st')"
    and f: "truthy (cleanup (effs st ! e))" and e: "e < length (effs st)"
  shows "\<exists>t1 t2 y st1 w st2.
       exec env n (CallVal (cleanup (effs st ! e))) (emit (EvCleanup e (cleanup (effs st ! e))) st)
         = Some (Inr y, st1)
     \<and> trace st1 = trace st @ EvCleanup e (cleanup (effs st ! e)) # t1
     \<and> exec env n (CallCb (fn (effs st1 ! e)))
          (emit (EvFn e) (st1\<lparr>Observer := Some (compute_ref (effs st1 ! e))\<rparr>)) = Some (Inr w, st2)
     \<and> trace st2 = trace st1 @ EvFn e # t2
     \<and> since st st' = EvCleanup e (cleanup (effs st ! e)) # t1 @ EvFn e # t2
     \<and> cleanup (effs st' ! e) = w"
proof -
  let ?c = "cleanup (effs st ! e)"
  from c have "compute (\<lambda>t s'. exec env n t s') e st = Some (Inr x, st')" by simp
  from compute_normal[OF this] obtain y st1 w st2 where
    a: "run_cleanup (\<lambda>t s'. exec env n t s') e st = Some (Inr y, st1)"
    and b: "exec env n (CallCb (fn (effs st1 ! e)))
          (emit (EvFn e) (st1\<lparr>Observer := Some (compute_ref (effs st1 ! e))\<rparr>)) = Some (Inr w, st2)"
    and st': "st' = st2\<lparr>effs := (effs st2)[e := (effs st2 ! e)\<lparr>cleanup := w\<rparr>], Observer := None\<rparr>"
    by blast
  from a f have a': "exec env n (CallVal ?c) (emit (EvCleanup e ?c) st) = Some (Inr y, st1)"
    by (simp add: run_cleanup_def)
  define t1 where "t1 = since (emit (EvCleanup e ?c) st) st1"
  define t2 where "t2 = since (emit (EvFn e) (st1\<lparr>Observer := Some (compute_ref (effs st1 ! e))\<rparr>)) st2"
  have 1: "trace st1 = trace st @ EvCleanup e ?c # t1"
    unfolding t1_def by (rule exec_since_emit[OF a'])
  have "trace st2 = trace (st1\<lparr>Observer := Some (compute_ref (effs st1 ! e))\<rparr>) @ EvFn e # t2"
    unfolding t2_def by (rule exec_since_emit[OF b])
  then have 2: "trace st2 = trace st1 @ EvFn e # t2" by simp
  have "trace st' = trace st @ (EvCleanup e ?c # t1 @ EvFn e # t2)"
    using 1 2 st' by simp
  then have 3: "since st st' = EvCleanup e ?c # t1 @ EvFn e # t2" by (rule since_append)
  have "length (effs st) \<le> length (effs st1)" using exec_effs[OF a'] by (simp add: emit_def)
  moreover have "length (effs st1) \<le> length (effs st2)" using exec_effs[OF b] by (simp add: emit_def)
  ultimately have "e < length (effs st2)" using e by simp
  then have 4: "cleanup (effs st' ! e) = w" using st' by simp
  from a' 1 b 2 3 4 show ?thesis by blast
qed

lemma dispose_shape:
  assumes c: "exec env (Suc n) (Dispose e) st = Some (Inr x, st')"
    and f: "truthy (cleanup (effs st ! e))"
  shows "\<exists>t1 y st1.
       exec env n (CallVal (cleanup (effs st ! e)))
          (emit (EvCleanup e (cleanup (effs st ! e))) (emit (EvDispose e) st)) = Some (Inr y, st1)
     \<and> since st st' = EvDispose e # EvCleanup e (cleanup (effs st ! e)) # t1
     \<and> trace st1 = trace st'"
proof -
  let ?c = "cleanup (effs st ! e)"
  let ?s0 = "emit (EvDispose e) st"
  from c have "disposer (\<lambda>t s'. exec env n t s') e st = Some (Inr x, st')" by simp
  from and_then_Inr[OF this[unfolded disposer_def]] obtain y st1 where
    a: "run_cleanup (\<lambda>t s'. exec env n t s') e ?s0 = Some (Inr y, st1)"
    and st': "st' = st1\<lparr>effs := (effs st1)[e := (effs st1 ! e)\<lparr>compute_ref := NoopFn (noops st1)\<rparr>],
                 noops := Suc (noops st1)\<rparr>"
    by auto
  have ce: "cleanup (effs ?s0 ! e) = ?c" by (simp add: emit_def)
  from a f have a': "exec env n (CallVal ?c) (emit (EvCleanup e ?c) ?s0) = Some (Inr y, st1)"
    by (simp add: run_cleanup_def ce)
  define t1 where "t1 = since (emit (EvCleanup e ?c) ?s0) st1"
  have "trace st1 = trace ?s0 @ EvCleanup e ?c # t1"
    unfolding t1_def by (rule exec_since_emit[OF a'])
  then have "trace st' = trace st @ (EvDispose e # EvCleanup e ?c # t1)"
    using st' by (simp add: emit_def)
  then have "since st st' = EvDispose e # EvCleanup e ?c # t1" by (rule since_append)
  moreover have "trace st1 = trace st'" using st' by simp
  ultimately show ?thesis using a' by blast
qed

section \<open>The element builder, step by step\<close>

lemma bindings_append: "bindings (a @ b) = bindings a @ bindings b"
  by (simp add: bindings_def)

lemma warnings_append: "warnings (a @ b) = warnings a @ warnings b"
  by (simp add: warnings_def)

lemma listeners_append: "listeners (a @ b) = listeners a @ listeners b"
  by (simp add: listeners_def)

lemma quiet_silent: "quiet ev \<Longrightarrow> bound ev = [] \<and> warned ev = [] \<and> listened ev = []"
proof (cases ev)
  case (EvDom c)
  assume "quiet ev"
  with EvDom show ?thesis by (cases c) simp_all
qed (auto elim: quiet.elims)

lemma core_silent: "core ev \<Longrightarrow> bound ev = [] \<and> warned ev = [] \<and> listened ev = []"
  by (cases ev) (simp_all add: quiet_silent)

lemma core_projections:
  "list_all core tr \<Longrightarrow> bindings tr = [] \<and> warnings tr = [] \<and> listeners tr = []"
  by (induction tr) (simp_all add: bindings_def warnings_def listeners_def core_silent)

lemma built_refl: "built st st [] [] [] 0"
  by (simp add: built_def since_self bindings_def warnings_def listeners_def)

lemma built_trans:
  assumes "built a b bs1 ws1 ls1 k1" "built b c bs2 ws2 ls2 k2"
  shows "built a c (bs1 @ bs2) (ws1 @ ws2) (ls1 @ ls2) (k1 + k2)"
proof -
  have p: "prefix (trace a) (trace b)" "prefix (trace b) (trace c)"
    using assms unfolding built_def by blast+
  have s: "since a c = since a b @ since b c" by (rule since_trans[OF p])
  have n: "nodes c = nodes a @ replicate (k1 + k2) TextNode"
    using assms unfolding built_def by (simp add: replicate_add)
  have "prefix (trace a) (trace c)" using p by (rule prefix_order.trans)
  moreover have "bindings (since a c) = bs1 @ bs2" "warnings (since a c) = ws1 @ ws2"
    "listeners (since a c) = ls1 @ ls2"
    using assms unfolding built_def s
    by (simp_all add: bindings_append warnings_append listeners_append)
  ultimately show ?thesis using n unfolding built_def by blast
qed

lemma built_events:
  assumes "trace st' = trace st @ evs" "nodes st' = nodes st @ replicate k TextNode"
  shows "built st st' (bindings evs) (warnings evs) (listeners evs) k"
  using assms by (simp add: built_def since_append)

lemma sound_built: "sound st st' \<Longrightarrow> built st st' [] [] [] 0"
proof -
  assume s: "sound st st'"
  have "prefix (trace st) (trace st')" "nodes st' = nodes st" using s unfolding sound_def by blast+
  moreover have "list_all core (since st st')" by (rule sound_core[OF s])
  ultimately show ?thesis by (simp add: built_def core_projections)
qed

lemma exec_built: "exec env n t st = Some (r, st') \<Longrightarrow> built st st' [] [] [] 0"
  by (rule sound_built[OF exec_sound])

lemma dom_trace:
  "dom env c st = Some (Inr v, st') \<Longrightarrow> trace st' = trace st @ [EvDom c] \<and> nodes st' = nodes st"
  by (auto simp: dom_def emit_def split: if_splits)

lemma dom_built:
  "dom env c st = Some (Inr v, st') \<Longrightarrow> built st st' [] [] (listened (EvDom c)) 0"
  using built_events[of st' st "[EvDom c]" 0] dom_trace[of env c st v st']
  by (cases c) (simp_all add: bindings_def warnings_def listeners_def)

lemma effect_built:
  assumes c: "effect (\<lambda>t s'. exec env n t s') cb st = Some (r, st')"
  shows "built st st' (bound (EvEffect (length (effs st)) cb)) [] [] 0"
proof -
  let ?e = "length (effs st)"
  define st0 where "st0 = emit (EvEffect ?e cb)
              (st\<lparr>effs := effs st @
                 [\<lparr>fn = cb, cleanup = VUndefined, compute_ref = ComputeFn ?e, returned = False\<rparr>]\<rparr>)"
  from c have c': "and_then (exec env n (Compute ?e) st0)
        (\<lambda>_ st1. Some (Inr (VDisposer ?e),
           st1\<lparr>effs := (effs st1)[?e := (effs st1 ! ?e)\<lparr>returned := True\<rparr>]\<rparr>)) = Some (r, st')"
    by (simp add: effect_def Let_def st0_def)
  have "trace st0 = trace st @ [EvEffect ?e cb]" "nodes st0 = nodes st @ replicate 0 TextNode"
    by (simp_all add: st0_def emit_def)
  from built_events[OF this]
  have a: "built st st0 (bound (EvEffect ?e cb)) [] [] 0"
    by (simp add: bindings_def warnings_def listeners_def)
  have "built st0 st' [] [] [] 0"
  proof (cases "exec env n (Compute ?e) st0")
    case None
    with c' show ?thesis by (simp add: and_then_def)
  next
    case (Some p)
    obtain r1 st1 where p: "p = (r1, st1)" by (cases p)
    have b: "built st0 st1 [] [] [] 0" using Some p by (auto intro: exec_built)
    have "trace st' = trace st1 \<and> nodes st' = nodes st1"
      using c' Some p by (cases r1) (auto simp: and_then_def)
    then have "built st1 st' [] [] [] 0"
      using built_events[of st' st1 "[]" 0]
      by (simp add: bindings_def warnings_def listeners_def)
    from built_trans[OF b this] show ?thesis by simp
  qed
  from built_trans[OF a this] show ?thesis by simp
qed

lemma set_prop_built:
  assumes c: "set_prop env (\<lambda>t s'. exec env n t s') el key v st = Some (Inr x, st')"
  shows "built st st' (prop_binding (namespaceURI st el) el (key, v)) (prop_warning env (key, v))
           (prop_listener el (key, v)) 0"
proof (cases "prefix ''on'' key")
  case False
  with c have "effect (\<lambda>t s'. exec env n t s')
             (AttrEffect (if key = ''xmlns'' then None else namespaceURI st el) el key v) st
           = Some (Inr x, st')"
    by (simp add: set_prop_def)
  from effect_built[OF this] False show ?thesis
    by (simp add: prop_binding_def prop_warning_def prop_listener_def)
next
  case on: True
  show ?thesis
  proof (cases "is_function v")
    case False
    with c on have "st' = emit (EvWarn (warning env key v)) st" by (simp add: set_prop_def)
    then have "trace st' = trace st @ [EvWarn (warning env key v)]"
      "nodes st' = nodes st @ replicate 0 TextNode" by (simp_all add: emit_def)
    from built_events[OF this] on False show ?thesis
      by (simp add: prop_binding_def prop_warning_def prop_listener_def
          bindings_def warnings_def listeners_def)
  next
    case True
    with c on have "and_then (dom env (RemoveEventListener el (toLowerCase (drop 2 key)) v) st)
                (\<lambda>_ st1. dom env (AddEventListener el (toLowerCase (drop 2 key)) v) st1)
           = Some (Inr x, st')" by (simp add: set_prop_def)
    from and_then_Inr[OF this] obtain v1 st1 where
      a: "dom env (RemoveEventListener el (toLowerCase (drop 2 key)) v) st = Some (Inr v1, st1)"
      and b: "dom env (AddEventListener el (toLowerCase (drop 2 key)) v) st1 = Some (Inr x, st')"
      by blast
    from built_trans[OF dom_built[OF a] dom_built[OF b]] on True show ?thesis
      by (simp add: prop_binding_def prop_warning_def prop_listener_def)
  qed
qed

lemma built_nodes0: "built st st' bs ws ls 0 \<Longrightarrow> nodes st' = nodes st"
  by (simp add: built_def)

lemma set_props_built:
  "set_props env (\<lambda>t s'. exec env n t s') el kvs st = Some (Inr x, st') \<Longrightarrow>
     built st st' (concat (map (prop_binding (namespaceURI st el) el) kvs))
       (concat (map (prop_warning env) kvs)) (concat (map (prop_listener el) kvs)) 0"
proof (induction kvs arbitrary: st x)
  case Nil
  then show ?case by (simp add: built_refl)
next
  case (Cons kv kvs)
  obtain key v where kv: "kv = (key, v)" by (cases kv)
  from Cons.prems kv have "and_then (set_prop env (\<lambda>t s'. exec env n t s') el key v st)
     (\<lambda>_ st'. set_props env (\<lambda>t s'. exec env n t s') el kvs st') = Some (Inr x, st')" by simp
  from and_then_Inr[OF this] obtain v1 st1 where
    a: "set_prop env (\<lambda>t s'. exec env n t s') el key v st = Some (Inr v1, st1)"
    and b: "set_props env (\<lambda>t s'. exec env n t s') el kvs st1 = Some (Inr x, st')" by blast
  note A = set_prop_built[OF a]
  have ns: "namespaceURI st1 el = namespaceURI st el"
    using built_nodes0[OF A] by (simp add: namespaceURI_def)
  from built_trans[OF A Cons.IH[OF b]] show ?case by (simp add: kv ns)
qed

lemma createTextNode_built:
  "createTextNode s st = (tn, st1) \<Longrightarrow> tn = length (nodes st) \<and> built st st1 [] [] [] 1"
  using built_events[of st1 st "[EvDom (CreateTextNode (length (nodes st)) s)]" 1]
  by (auto simp: createTextNode_def emit_def bindings_def warnings_def listeners_def)

lemma add_text_built:
  assumes "(case createTextNode s st of (tn, st1) \<Rightarrow> dom env (AppendChild parent tn) st1)
             = Some (Inr r, st')"
  shows "built st st' [] [] [] 1"
proof -
  obtain tn st1 where c: "createTextNode s st = (tn, st1)" by (cases "createTextNode s st")
  with assms have d: "dom env (AppendChild parent tn) st1 = Some (Inr r, st')" by simp
  from built_trans[OF conjunct2[OF createTextNode_built[OF c]] dom_built[OF d]]
  show ?thesis by simp
qed

lemma add_fun_built:
  assumes "(case createTextNode [] st of
              (tn, st1) \<Rightarrow>
                and_then (effect (\<lambda>t s'. exec env n t s') (TextEffect tn child) st1)
                  (\<lambda>_ st2. dom env (AppendChild parent tn) st2)) = Some (Inr r, st')"
  shows "built st st' [TextEffect (length (nodes st)) child] [] [] 1"
proof -
  obtain tn st1 where c: "createTextNode [] st = (tn, st1)" by (cases "createTextNode [] st")
  note C = createTextNode_built[OF c]
  from assms c have "and_then (effect (\<lambda>t s'. exec env n t s') (TextEffect tn child) st1)
                  (\<lambda>_ st2. dom env (AppendChild parent tn) st2) = Some (Inr r, st')" by simp
  from and_then_Inr[OF this] obtain v1 st2 where
    a: "effect (\<lambda>t s'. exec env n t s') (TextEffect tn child) st1 = Some (Inr v1, st2)"
    and b: "dom env (AppendChild parent tn) st2 = Some (Inr r, st')" by blast
  from built_trans[OF built_trans[OF conjunct2[OF C] effect_built[OF a]] dom_built[OF b]] C
  show ?thesis by simp
qed

lemma built_length: "built st st' bs ws ls k \<Longrightarrow> length (nodes st') = length (nodes st) + k"
  by (simp add: built_def)

lemma add_built:
  "add env run parent child st = Some (Inr r, st') \<Longrightarrow> run = (\<lambda>t s'. exec env n t s') \<Longrightarrow>
     built st st' (binds (length (nodes st)) child) [] [] (made child)"
  "add_forEach env run parent cs st = Some (Inr r, st') \<Longrightarrow> run = (\<lambda>t s'. exec env n t s') \<Longrightarrow>
     built st st' (binds_list (length (nodes st)) cs) [] [] (made_list cs)"
proof (induction env run parent child st and env run parent cs st arbitrary: r st' and r st'
    rule: add_add_forEach.induct)
  case (1 env run parent cs st)
  then show ?case by simp
next
  case (2 env run parent c st)
  from 2 show ?case by (auto dest: dom_built)
next
  case (3 env run parent n st)
  from 3 show ?case by (auto dest: add_text_built)
next
  case (4 env run parent s st)
  from 4 show ?case by (auto dest: add_text_built)
next
  case (6 env run parent st)
  then show ?case by (simp add: built_refl)
next
  case (7 env run parent c cs st)
  from 7(3) have "and_then (add env run parent c st)
     (\<lambda>_ st'. add_forEach env run parent cs st') = Some (Inr r, st')" by simp
  from and_then_Inr[OF this] obtain v1 st1 where
    a: "add env run parent c st = Some (Inr v1, st1)"
    and b: "add_forEach env run parent cs st1 = Some (Inr r, st')" by blast
  note A = 7(1)[OF a 7(4)]
  note B = 7(2)[OF b 7(4)]
  from built_trans[OF A B] built_length[OF A] show ?case by simp
qed (auto simp: built_refl dest: add_fun_built split: if_splits)

lemma made_list_append: "made_list (xs @ ys) = made_list xs + made_list ys"
  by (induction xs) simp_all

lemma binds_list_append:
  "binds_list N (xs @ ys) = binds_list N xs @ binds_list (N + made_list xs) ys"
  by (induction xs arbitrary: N) (simp_all add: add.assoc)


lemma binds_text:
  "cb \<in> set (binds N c) \<Longrightarrow> \<exists>tn ch. cb = TextEffect tn ch \<and> is_function ch"
  "cb \<in> set (binds_list N cs) \<Longrightarrow> \<exists>tn ch. cb = TextEffect tn ch \<and> is_function ch"
  by (induction N c and N cs rule: binds_binds_list.induct) (auto split: if_splits)


lemma createElement_built:
  assumes c: "createElement env (\<lambda>t s'. exec env n t s') tagName first children st
                = Some (Inr r, st')"
  shows "r = VNode (length (nodes st))
       \<and> bindings (since st st')
           = concat (map (prop_binding (element_ns env tagName) (length (nodes st)))
                       (props_of env first))
             @ binds_list (Suc (length (nodes st))) (kids_of first children)
       \<and> warnings (since st st') = concat (map (prop_warning env) (props_of env first))
       \<and> listeners (since st st')
           = concat (map (prop_listener (length (nodes st))) (props_of env first))
       \<and> nodes st' = nodes st @ Element tagName (element_ns env tagName)
                        # replicate (made_list (kids_of first children)) TextNode"
proof -
  let ?run = "\<lambda>t s'. exec env n t s'"
  define el where "el = length (nodes st)"
  define ev where "ev = (if or_else (namespaceElements env tagName) None \<noteq> None
                 then EvDom (CreateElementNS el (the (namespaceElements env tagName)) tagName)
                 else EvDom (CreateElement el tagName))"
  define st0 where "st0 = emit ev (st\<lparr>nodes := nodes st @ [Element tagName (element_ns env tagName)]\<rparr>)"
  have st0: "(if or_else (namespaceElements env tagName) None \<noteq> None
                 then emit (EvDom (CreateElementNS el (the (namespaceElements env tagName)) tagName))
                        (st\<lparr>nodes := nodes st @ [Element tagName (namespaceElements env tagName)]\<rparr>)
                 else emit (EvDom (CreateElement el tagName))
                        (st\<lparr>nodes := nodes st @ [Element tagName (Some xhtml)]\<rparr>)) = st0"
    by (simp add: st0_def ev_def element_ns_def)
  have sil: "bound ev = []" "warned ev = []" "listened ev = []" by (simp_all add: ev_def)
  have t0: "trace st0 = trace st @ [ev]" and n0: "nodes st0 = nodes st @ [Element tagName (element_ns env tagName)]"
    by (simp_all add: st0_def emit_def)
  have ns0: "namespaceURI st0 el = element_ns env tagName"
    by (simp add: namespaceURI_def n0 el_def)
  from c have c': "and_then (if is_props first then set_props env ?run el (entries env first) st0
                   else Some (Inr VUndefined, st0))
           (\<lambda>_ st1.
              and_then (if is_child first then add env ?run el first st1
                        else Some (Inr VUndefined, st1))
                (\<lambda>_ st2.
                   and_then (add_forEach env ?run el children st2)
                     (\<lambda>_ st3. Some (Inr (VNode el), st3)))) = Some (Inr r, st')"
    unfolding createElement_def Let_def el_def[symmetric] st0 .
  from and_then_Inr[OF c'] obtain v1 st1 where
    p: "(if is_props first then set_props env ?run el (entries env first) st0
                   else Some (Inr VUndefined, st0)) = Some (Inr v1, st1)"
    and c2: "and_then (if is_child first then add env ?run el first st1
                        else Some (Inr VUndefined, st1))
                (\<lambda>_ st2.
                   and_then (add_forEach env ?run el children st2)
                     (\<lambda>_ st3. Some (Inr (VNode el), st3))) = Some (Inr r, st')" by blast
  from and_then_Inr[OF c2] obtain v2 st2 where
    a: "(if is_child first then add env ?run el first st1
                        else Some (Inr VUndefined, st1)) = Some (Inr v2, st2)"
    and c3: "and_then (add_forEach env ?run el children st2)
                     (\<lambda>_ st3. Some (Inr (VNode el), st3)) = Some (Inr r, st')" by blast
  from and_then_Inr[OF c3] obtain v3 st3 where
    k: "add_forEach env ?run el children st2 = Some (Inr v3, st3)"
    and fin: "Some (Inr (VNode el), st3) = Some (Inr r, st')" by blast
  from fin have r: "r = VNode el" and st3: "st3 = st'" by simp_all
  have P: "built st0 st1 (concat (map (prop_binding (element_ns env tagName) el) (props_of env first)))
             (concat (map (prop_warning env) (props_of env first)))
             (concat (map (prop_listener el) (props_of env first))) 0"
  proof (cases "is_props first")
    case True
    with p have "set_props env ?run el (entries env first) st0 = Some (Inr v1, st1)" by simp
    from set_props_built[OF this] True show ?thesis by (simp add: props_of_def ns0)
  next
    case False
    with p show ?thesis by (simp add: props_of_def built_refl)
  qed
  have l1: "length (nodes st1) = Suc el" using built_length[OF P] n0 by (simp add: el_def)
  let ?F = "if is_child first then [first] else []"
  have A: "built st1 st2 (binds_list (Suc el) ?F) [] [] (made_list ?F)"
  proof (cases "is_child first")
    case True
    with a have "add env ?run el first st1 = Some (Inr v2, st2)" by simp
    from add_built(1)[OF this refl] True show ?thesis by (simp add: l1)
  next
    case False
    with a show ?thesis by (simp add: built_refl)
  qed
  have l2: "length (nodes st2) = Suc el + made_list ?F" using built_length[OF A] l1 by simp
  have K: "built st2 st' (binds_list (Suc el + made_list ?F) children) [] [] (made_list children)"
    using add_built(2)[OF k refl] by (simp add: l2 st3)
  from built_trans[OF built_trans[OF P A] K]
  have B: "built st0 st'
        (concat (map (prop_binding (element_ns env tagName) el) (props_of env first))
           @ binds_list (Suc el) (kids_of first children))
        (concat (map (prop_warning env) (props_of env first)))
        (concat (map (prop_listener el) (props_of env first)))
        (made_list (kids_of first children))"
    by (simp add: kids_of_def binds_list_append made_list_append)
  have pre: "prefix (trace st0) (trace st')" using B unfolding built_def by blast
  have "trace st' = trace st @ ev # since st0 st'"
    using prefix_since[OF pre] t0 by simp
  then have s: "since st st' = ev # since st0 st'" by (rule since_append)
  have proj: "bindings (since st st') = bindings (since st0 st')"
    "warnings (since st st') = warnings (since st0 st')"
    "listeners (since st st') = listeners (since st0 st')"
    by (simp_all add: s bindings_def warnings_def listeners_def sil)
  have nodes': "nodes st' = nodes st0 @ replicate (made_list (kids_of first children)) TextNode"
    using B unfolding built_def by blast
  from B show ?thesis
    unfolding built_def proj[symmetric] r nodes' n0 el_def by simp
qed

section \<open>Results do not depend on the bound\<close>

lemma and_then_mono:
  "and_then m k = Some x \<Longrightarrow> (\<And>y. m = Some y \<Longrightarrow> m' = Some y) \<Longrightarrow>
     (\<And>v s. k v s = Some x \<Longrightarrow> k' v s = Some x) \<Longrightarrow> and_then m' k' = Some x"
  by (cases m) (auto simp: and_then_def split: sum.splits)

lemma ensuring_mono:
  "ensuring m f = Some x \<Longrightarrow> (\<And>y. m = Some y \<Longrightarrow> m' = Some y) \<Longrightarrow> ensuring m' f = Some x"
  by (cases m) (auto simp: ensuring_def)

lemma run_cleanup_mono:
  assumes c: "run_cleanup run e st = Some x"
    and g: "\<And>t s y. run t s = Some y \<Longrightarrow> run' t s = Some y"
  shows "run_cleanup run' e st = Some x"
  using c g by (auto simp: run_cleanup_def split: if_splits)

lemma setter_mono:
  assumes c: "setter run s v st = Some x"
    and g: "\<And>t s y. run t s = Some y \<Longrightarrow> run' t s = Some y"
  shows "setter run' s v st = Some x"
  using c g by (simp add: setter_def)

lemma compute_mono:
  assumes c: "compute run e st = Some x"
    and g: "\<And>t s y. run t s = Some y \<Longrightarrow> run' t s = Some y"
  shows "compute run' e st = Some x"
  unfolding compute_def
  apply (rule ensuring_mono[OF c[unfolded compute_def]])
  apply (erule and_then_mono)
   apply (erule run_cleanup_mono[OF _ g], assumption)
  apply (erule and_then_mono)
   apply (erule g)
  apply assumption
  done

lemma effect_mono:
  assumes c: "effect run cb st = Some x"
    and g: "\<And>t s y. run t s = Some y \<Longrightarrow> run' t s = Some y"
  shows "effect run' cb st = Some x"
  using c unfolding effect_def Let_def
  apply (elim and_then_mono)
   apply (erule g)
  apply assumption
  done

lemma disposer_mono:
  assumes c: "disposer run e st = Some x"
    and g: "\<And>t s y. run t s = Some y \<Longrightarrow> run' t s = Some y"
  shows "disposer run' e st = Some x"
  using c unfolding disposer_def
  apply (elim and_then_mono)
   apply (erule run_cleanup_mono[OF _ g], assumption)
  apply assumption
  done

lemma setOrRemoveAttr_mono:
  assumes c: "setOrRemoveAttr env run ns el key raw st = Some x"
    and g: "\<And>t s y. run t s = Some y \<Longrightarrow> run' t s = Some y"
  shows "setOrRemoveAttr env run' ns el key raw st = Some x"
  using c unfolding setOrRemoveAttr_def
  apply (elim and_then_mono)
   apply (auto split: if_splits dest: g)
  done

text \<open>
  More fuel does not change a result: an execution that returns with some bound on its
  depth returns the same with every larger bound.
\<close>

lemma exec_mono: "exec env n t st = Some x \<Longrightarrow> n \<le> m \<Longrightarrow> exec env m t st = Some x"
proof (induction n arbitrary: m t st x)
  case 0
  then show ?case by simp
next
  case (Suc n)
  from Suc.prems(2) obtain j where m: "m = Suc j" and nk: "n \<le> j" by (cases m) auto
  have IH: "\<And>t s y. exec env n t s = Some y \<Longrightarrow> exec env j t s = Some y"
    using Suc.IH nk by blast
  have g: "\<And>t s y. (\<lambda>t s'. exec env n t s') t s = Some y \<Longrightarrow> (\<lambda>t s'. exec env j t s') t s = Some y"
    using IH by simp
  note ex = Suc.prems(1)
  show ?case
  proof (cases t)
    case (Run p)
    show ?thesis
    proof (cases p)
      case (Call f k)
      with ex Run have "and_then (exec env n (CallVal f) st) (\<lambda>v st'. exec env n (Run (k v)) st')
        = Some x" by simp
      then have "and_then (exec env j (CallVal f) st) (\<lambda>v st'. exec env j (Run (k v)) st')
        = Some x" by (rule and_then_mono) (erule IH)+
      with Run Call m show ?thesis by simp
    next
      case (Write s v q)
      show ?thesis
      proof (cases "s < length (sigs st)")
        case True
        with ex Run Write
        have "and_then (setter (\<lambda>t s'. exec env n t s') s v st) (\<lambda>_ st'. exec env n (Run q) st')
          = Some x" by simp
        then have "and_then (setter (\<lambda>t s'. exec env j t s') s v st)
           (\<lambda>_ st'. exec env j (Run q) st') = Some x"
          by (rule and_then_mono) (erule setter_mono[OF _ g] IH, (assumption)?)+
        with Run Write True m show ?thesis by simp
      next
        case False
        with ex Run Write m show ?thesis by simp
      qed
    next
      case (NewSignal v k)
      with ex Run m show ?thesis by (auto split: prod.splits dest: IH)
    next
      case (NewEffect f k)
      with ex Run have "and_then (exec env n (Effect f) st) (\<lambda>d st'. exec env n (Run (k d)) st')
        = Some x" by simp
      then have "and_then (exec env j (Effect f) st) (\<lambda>d st'. exec env j (Run (k d)) st')
        = Some x" by (rule and_then_mono) (erule IH)+
      with Run NewEffect m show ?thesis by simp
    qed (use ex Run m in simp_all)
  next
    case (CallVal f)
    show ?thesis
    proof (cases f)
      case (VFun i)
      with ex CallVal m show ?thesis by (auto dest: IH)
    next
      case (VSetter s)
      with ex CallVal m show ?thesis by (auto split: if_splits dest: setter_mono[OF _ g])
    next
      case (VDisposer e)
      with ex CallVal m show ?thesis by (auto split: if_splits dest: IH)
    qed (use ex CallVal m in \<open>auto split: if_splits\<close>)
  next
    case (CallCb cb)
    show ?thesis
    proof (cases cb)
      case (TextEffect tn child)
      with ex CallCb have "and_then (exec env n (CallVal child) st)
            (\<lambda>v st'. dom env (SetTextContent tn (js_String env v)) st') = Some x" by simp
      then have "and_then (exec env j (CallVal child) st)
            (\<lambda>v st'. dom env (SetTextContent tn (js_String env v)) st') = Some x"
        by (rule and_then_mono) (erule IH, assumption)
      with CallCb TextEffect m show ?thesis by simp
    qed (use ex CallCb m in \<open>auto dest: IH\<close>)
  next
    case (Notify s i)
    show ?thesis
    proof (cases "i < length (observers (sigs st ! s))")
      case True
      with ex Notify have "and_then (exec env n (Invoke (observers (sigs st ! s) ! i)) st)
             (\<lambda>_ st'. exec env n (Notify s (Suc i)) st') = Some x" by simp
      then have "and_then (exec env j (Invoke (observers (sigs st ! s) ! i)) st)
             (\<lambda>_ st'. exec env j (Notify s (Suc i)) st') = Some x"
        by (rule and_then_mono) (erule IH)+
      with Notify True m show ?thesis by simp
    next
      case False
      with ex Notify m show ?thesis by simp
    qed
  next
    case (Invoke ob)
    with ex m show ?thesis by (cases ob) (auto dest: IH)
  next
    case (Compute e)
    with ex m show ?thesis by (auto dest: compute_mono[OF _ g])
  next
    case (Effect f)
    with ex m show ?thesis by (auto dest: effect_mono[OF _ g])
  next
    case (Dispose e)
    with ex m show ?thesis by (auto dest: disposer_mono[OF _ g])
  next
    case (SetAttr ns el key v)
    with ex m show ?thesis by (auto dest: setOrRemoveAttr_mono[OF _ g])
  qed
qed

lemma exec_more_fuel: "exec env n t st = Some x \<Longrightarrow> exec env (n + k) t st = Some x"
  by (erule exec_mono) simp

section \<open>No execution sets an attribute named like a handler\<close>

lemma in_range_mono: "in_range n ob \<Longrightarrow> n \<le> m \<Longrightarrow> in_range m ob"
  by (cases ob) simp_all

lemma list_all_update:
  assumes "list_all P xs" "i < length xs \<Longrightarrow> P x"
  shows "list_all P (xs[i := x])"
proof (cases "i < length xs")
  case True
  with assms show ?thesis
    by (auto simp: list_all_iff dest!: set_update_subset_insert[THEN subsetD])
next
  case False
  then have "xs[i := x] = xs" by (simp add: list_update_beyond)
  with assms(1) show ?thesis by simp
qed

lemma keeps_refl: "well_formed st \<Longrightarrow> keeps st st"
  by (simp add: keeps_def since_self)

lemma keeps_trans:
  assumes "keeps a b" "keeps b c"
  shows "keeps a c"
proof -
  have p: "prefix (trace a) (trace b)" "prefix (trace b) (trace c)"
    using assms unfolding keeps_def by blast+
  have s: "since a c = since a b @ since b c" by (rule since_trans[OF p])
  have "prefix (trace a) (trace c)" using p by (rule prefix_order.trans)
  moreover have "list_all calm (since a c)" using assms unfolding keeps_def s by simp
  moreover have "length (sigs a) \<le> length (sigs c)" "length (effs a) \<le> length (effs c)"
    using assms unfolding keeps_def by auto
  ultimately show ?thesis using assms(2) unfolding keeps_def by blast
qed

lemma keeps_wf: "keeps st st' \<Longrightarrow> well_formed st'"
  by (simp add: keeps_def)

lemma keeps_same:
  assumes "well_formed st'" "trace st' = trace st" "length (sigs st) \<le> length (sigs st')"
    "length (effs st) \<le> length (effs st')"
  shows "keeps st st'"
  using assms by (simp add: keeps_def since_def)

lemma keeps_event:
  assumes "well_formed st'" "trace st' = trace st @ [ev]" "calm ev"
    "length (sigs st) \<le> length (sigs st')" "length (effs st) \<le> length (effs st')"
  shows "keeps st st'"
  using assms by (simp add: keeps_def since_def)

lemma wf_emit: "well_formed (emit ev st) = well_formed st"
  by (simp add: well_formed_def emit_def)

lemma wf_nodes: "well_formed (st\<lparr>nodes := ns\<rparr>) = well_formed st"
  by (simp add: well_formed_def)

lemma keeps_emit: "well_formed st \<Longrightarrow> calm ev \<Longrightarrow> keeps st (emit ev st)"
  by (rule keeps_event[where ev = ev]) (simp_all add: wf_emit, simp_all add: emit_def)

lemma keeps_signal: "well_formed st \<Longrightarrow> keeps st (snd (signal v st))"
  by (rule keeps_event[where ev = "EvSignal (length (sigs st)) v"])
    (simp_all add: signal_def emit_def well_formed_def)

lemma wf_observers:
  "well_formed st \<Longrightarrow> s < length (sigs st) \<Longrightarrow>
     list_all (in_range (length (effs st))) (observers (sigs st ! s))"
  by (simp add: well_formed_def list_all_length)

lemma keeps_read:
  assumes w: "well_formed st" and s: "s < length (sigs st)"
  shows "keeps st (snd (accessor s st))"
proof (rule keeps_event[where ev = "EvRead s (val (sigs st ! s))"])
  show "well_formed (snd (accessor s st))"
  proof (cases "Observer st")
    case None
    with w show ?thesis by (simp add: accessor_def wf_emit)
  next
    case (Some ob)
    with w have ob: "in_range (length (effs st)) ob" by (simp add: well_formed_def)
    have "list_all (in_range (length (effs st))) (set_add ob (observers (sigs st ! s)))"
      using wf_observers[OF w s] ob by (simp add: set_add_def)
    then have "list_all (\<lambda>c. list_all (in_range (length (effs st))) (observers c))
        ((sigs st)[s := (sigs st ! s)\<lparr>observers := set_add ob (observers (sigs st ! s))\<rparr>])"
      using w by (intro list_all_update) (simp_all add: well_formed_def)
    with w Some show ?thesis by (simp add: accessor_def wf_emit) (simp add: well_formed_def)
  qed
qed (simp_all add: accessor_def emit_def split: option.splits)

lemma keeps_write:
  assumes w: "well_formed st" and s: "s < length (sigs st)"
  shows "keeps st (emit (EvWrite s v) (st\<lparr>sigs := (sigs st)[s := (sigs st ! s)\<lparr>val := v\<rparr>]\<rparr>))"
proof (rule keeps_event[where ev = "EvWrite s v"])
  have "list_all (\<lambda>c. list_all (in_range (length (effs st))) (observers c))
        ((sigs st)[s := (sigs st ! s)\<lparr>val := v\<rparr>])"
    using w wf_observers[OF w s] by (intro list_all_update) (simp_all add: well_formed_def)
  with w show "well_formed (emit (EvWrite s v) (st\<lparr>sigs := (sigs st)[s := (sigs st ! s)\<lparr>val := v\<rparr>]\<rparr>))"
    by (simp add: wf_emit) (simp add: well_formed_def)
qed (simp_all add: emit_def)

lemma wf_cell:
  "well_formed st \<Longrightarrow> e < length (effs st) \<Longrightarrow>
     plain (fn (effs st ! e)) \<and> in_range (length (effs st)) (compute_ref (effs st ! e))"
  by (simp add: well_formed_def list_all_length)

lemma keeps_effs_update:
  assumes w: "well_formed st"
    and c: "e < length (effs st) \<Longrightarrow> plain (fn c) \<and> in_range (length (effs st)) (compute_ref c)"
  shows "keeps st (st\<lparr>effs := (effs st)[e := c]\<rparr>)"
proof (rule keeps_same)
  have "list_all (\<lambda>c. plain (fn c) \<and> in_range (length (effs st)) (compute_ref c)) ((effs st)[e := c])"
    using w c by (intro list_all_update) (simp_all add: well_formed_def)
  with w show "well_formed (st\<lparr>effs := (effs st)[e := c]\<rparr>)" by (simp add: well_formed_def)
qed simp_all

lemma keeps_cleanup:
  "well_formed st \<Longrightarrow> keeps st (st\<lparr>effs := (effs st)[e := (effs st ! e)\<lparr>cleanup := v\<rparr>]\<rparr>)"
  by (rule keeps_effs_update) (simp_all add: wf_cell)

lemma keeps_returned:
  "well_formed st \<Longrightarrow> keeps st (st\<lparr>effs := (effs st)[e := (effs st ! e)\<lparr>returned := b\<rparr>]\<rparr>)"
  by (rule keeps_effs_update) (simp_all add: wf_cell)

lemma keeps_noop:
  assumes w: "well_formed st"
  shows "keeps st (st\<lparr>effs := (effs st)[e := (effs st ! e)\<lparr>compute_ref := NoopFn k\<rparr>], noops := j\<rparr>)"
proof -
  have a: "keeps st (st\<lparr>effs := (effs st)[e := (effs st ! e)\<lparr>compute_ref := NoopFn k\<rparr>]\<rparr>)"
    by (rule keeps_effs_update[OF w]) (simp add: wf_cell[OF w])
  have "keeps (st\<lparr>effs := (effs st)[e := (effs st ! e)\<lparr>compute_ref := NoopFn k\<rparr>]\<rparr>)
         (st\<lparr>effs := (effs st)[e := (effs st ! e)\<lparr>compute_ref := NoopFn k\<rparr>], noops := j\<rparr>)"
    using keeps_wf[OF a] by (intro keeps_same) (simp_all add: well_formed_def)
  with a show ?thesis by (rule keeps_trans)
qed

lemma keeps_Observer_None: "well_formed st \<Longrightarrow> keeps st (st\<lparr>Observer := None\<rparr>)"
  by (rule keeps_same) (simp_all add: well_formed_def)

lemma keeps_Observer_compute:
  "well_formed st \<Longrightarrow> e < length (effs st) \<Longrightarrow>
     keeps st (st\<lparr>Observer := Some (compute_ref (effs st ! e))\<rparr>)"
  using wf_cell[of st e] by (intro keeps_same) (simp_all add: well_formed_def)

lemma keeps_new_effect:
  assumes w: "well_formed st" and p: "plain cb"
  shows "keeps st (emit (EvEffect (length (effs st)) cb)
              (st\<lparr>effs := effs st @
                 [\<lparr>fn = cb, cleanup = VUndefined, compute_ref = ComputeFn (length (effs st)),
                   returned = False\<rparr>]\<rparr>))"
proof (rule keeps_event[where ev = "EvEffect (length (effs st)) cb"])
  have m: "in_range (length (effs st)) ob \<Longrightarrow> in_range (Suc (length (effs st))) ob" for ob
    by (erule in_range_mono) simp
  have 1: "list_all (\<lambda>c. plain (fn c) \<and> in_range (Suc (length (effs st))) (compute_ref c)) (effs st)"
    using w m unfolding well_formed_def list_all_iff by blast
  have 2: "list_all (\<lambda>c. list_all (in_range (Suc (length (effs st)))) (observers c)) (sigs st)"
    using w m unfolding well_formed_def list_all_iff by blast
  have 3: "pred_option (in_range (Suc (length (effs st)))) (Observer st)"
    using w m unfolding well_formed_def by (cases "Observer st") simp_all
  from 1 2 3 p show "well_formed (emit (EvEffect (length (effs st)) cb)
              (st\<lparr>effs := effs st @
                 [\<lparr>fn = cb, cleanup = VUndefined, compute_ref = ComputeFn (length (effs st)),
                   returned = False\<rparr>]\<rparr>))"
    by (simp add: wf_emit) (simp add: well_formed_def)
qed (simp_all add: emit_def)

lemma keeps_dom:
  "dom env c st = Some (r, st') \<Longrightarrow> well_formed st \<Longrightarrow> \<not> sets_on_attr c \<Longrightarrow> keeps st st'"
  by (auto simp: dom_def intro: keeps_emit split: if_splits)

lemma and_then_keeps:
  assumes "and_then m k = Some (r, st')"
    and "\<And>r1 st1. m = Some (r1, st1) \<Longrightarrow> keeps st st1"
    and "\<And>v st1. m = Some (Inr v, st1) \<Longrightarrow> well_formed st1 \<Longrightarrow> k v st1 = Some (r, st') \<Longrightarrow> keeps st1 st'"
  shows "keeps st st'"
proof (rule and_then_rel[where R = keeps, OF assms(1) keeps_trans assms(2)])
  fix v st1
  assume m: "m = Some (Inr v, st1)" and k: "k v st1 = Some (r, st')"
  from assms(3)[OF m keeps_wf[OF assms(2)[OF m]] k] show "keeps st1 st'" .
qed

lemma run_cleanup_keeps:
  assumes run: "\<And>t s r s'. run t s = Some (r, s') \<Longrightarrow> well_formed s \<Longrightarrow> admissible s t \<Longrightarrow> keeps s s'"
    and c: "run_cleanup run e st = Some (r, st')" and w: "well_formed st"
  shows "keeps st st'"
proof (cases "truthy (cleanup (effs st ! e))")
  case True
  with c have a: "run (CallVal (cleanup (effs st ! e))) (emit (EvCleanup e (cleanup (effs st ! e))) st)
     = Some (r, st')" by (simp add: run_cleanup_def)
  have k: "keeps st (emit (EvCleanup e (cleanup (effs st ! e))) st)"
    using w by (rule keeps_emit) simp
  from run[OF a keeps_wf[OF k]] have "keeps (emit (EvCleanup e (cleanup (effs st ! e))) st) st'"
    by simp
  with k show ?thesis by (rule keeps_trans)
next
  case False
  with c w show ?thesis by (simp add: run_cleanup_def keeps_refl)
qed

lemma setter_keeps:
  assumes run: "\<And>t s r s'. run t s = Some (r, s') \<Longrightarrow> well_formed s \<Longrightarrow> admissible s t \<Longrightarrow> keeps s s'"
    and c: "setter run s v st = Some (r, st')" and s: "s < length (sigs st)"
    and w: "well_formed st"
  shows "keeps st st'"
proof -
  define st0 where "st0 = emit (EvWrite s v) (st\<lparr>sigs := (sigs st)[s := (sigs st ! s)\<lparr>val := v\<rparr>]\<rparr>)"
  have k: "keeps st st0" unfolding st0_def by (rule keeps_write[OF w s])
  have a: "admissible st0 (Notify s 0)" using s by (simp add: st0_def emit_def)
  from c have "run (Notify s 0) st0 = Some (r, st')" by (simp add: setter_def st0_def)
  from run[OF this keeps_wf[OF k] a] k show ?thesis by (rule keeps_trans[rotated])
qed

lemma compute_keeps:
  assumes run: "\<And>t s r s'. run t s = Some (r, s') \<Longrightarrow> well_formed s \<Longrightarrow> admissible s t \<Longrightarrow> keeps s s'"
    and c: "compute run e st = Some (r, st')" and w: "well_formed st"
    and e: "e < length (effs st)"
  shows "keeps st st'"
proof -
  let ?inner = "\<lambda>st1. and_then (run (CallCb (fn (effs st1 ! e)))
                    (emit (EvFn e) (st1\<lparr>Observer := Some (compute_ref (effs st1 ! e))\<rparr>)))
          (\<lambda>v st2. Some (Inr VUndefined,
                          st2\<lparr>effs := (effs st2)[e := (effs st2 ! e)\<lparr>cleanup := v\<rparr>]\<rparr>))"
  let ?body = "and_then (run_cleanup run e st) (\<lambda>_ st1. ?inner st1)"
  from c obtain st2 where b: "?body = Some (r, st2)" and st': "st' = st2\<lparr>Observer := None\<rparr>"
    by (auto simp: compute_def ensuring_def split: option.splits)
  have inner: "keeps st1 st2"
    if i: "?inner st1 = Some (r, st2)" and w1: "well_formed st1" and e1: "e < length (effs st1)"
    for st1
  proof -
    define sB where "sB = emit (EvFn e) (st1\<lparr>Observer := Some (compute_ref (effs st1 ! e))\<rparr>)"
    have k1: "keeps st1 (st1\<lparr>Observer := Some (compute_ref (effs st1 ! e))\<rparr>)"
      by (rule keeps_Observer_compute[OF w1 e1])
    have "keeps (st1\<lparr>Observer := Some (compute_ref (effs st1 ! e))\<rparr>) sB"
      unfolding sB_def by (rule keeps_emit[OF keeps_wf[OF k1]]) simp
    with k1 have kB: "keeps st1 sB" by (rule keeps_trans)
    from i have i': "and_then (run (CallCb (fn (effs st1 ! e))) sB)
          (\<lambda>v st2. Some (Inr VUndefined,
                          st2\<lparr>effs := (effs st2)[e := (effs st2 ! e)\<lparr>cleanup := v\<rparr>]\<rparr>))
        = Some (r, st2)" by (simp add: sB_def)
    have "keeps sB st2"
    proof (rule and_then_keeps[OF i'])
      fix r1 st1a
      assume "run (CallCb (fn (effs st1 ! e))) sB = Some (r1, st1a)"
      from run[OF this keeps_wf[OF kB]] wf_cell[OF w1 e1] show "keeps sB st1a" by simp
    next
      fix v st1a
      assume wa: "well_formed st1a"
        and "Some (Inr VUndefined, st1a\<lparr>effs := (effs st1a)[e := (effs st1a ! e)\<lparr>cleanup := v\<rparr>]\<rparr>)
              = Some (r, st2)"
      then have "st2 = st1a\<lparr>effs := (effs st1a)[e := (effs st1a ! e)\<lparr>cleanup := v\<rparr>]\<rparr>" by simp
      with keeps_cleanup[OF wa] show "keeps st1a st2" by simp
    qed
    with kB show ?thesis by (rule keeps_trans)
  qed
  have k2: "keeps st st2"
  proof (rule and_then_keeps[OF b])
    fix r1 st1
    assume m: "run_cleanup run e st = Some (r1, st1)"
    show "keeps st st1" by (rule run_cleanup_keeps[where run = run, OF _ m w]) (rule run)
  next
    fix v st1
    assume m: "run_cleanup run e st = Some (Inr v, st1)" and w1: "well_formed st1"
      and i: "?inner st1 = Some (r, st2)"
    have "keeps st st1" by (rule run_cleanup_keeps[where run = run, OF _ m w]) (rule run)
    with e have "e < length (effs st1)" by (simp add: keeps_def)
    from inner[OF i w1 this] show "keeps st1 st2" .
  qed
  from k2 keeps_Observer_None[OF keeps_wf[OF k2]] show ?thesis unfolding st' by (rule keeps_trans)
qed

lemma effect_keeps:
  assumes run: "\<And>t s r s'. run t s = Some (r, s') \<Longrightarrow> well_formed s \<Longrightarrow> admissible s t \<Longrightarrow> keeps s s'"
    and c: "effect run cb st = Some (r, st')" and w: "well_formed st" and p: "plain cb"
  shows "keeps st st'"
proof -
  let ?e = "length (effs st)"
  define st0 where "st0 = emit (EvEffect ?e cb)
              (st\<lparr>effs := effs st @
                 [\<lparr>fn = cb, cleanup = VUndefined, compute_ref = ComputeFn ?e, returned = False\<rparr>]\<rparr>)"
  from c have c': "and_then (run (Compute ?e) st0)
        (\<lambda>_ st1. Some (Inr (VDisposer ?e),
           st1\<lparr>effs := (effs st1)[?e := (effs st1 ! ?e)\<lparr>returned := True\<rparr>]\<rparr>)) = Some (r, st')"
    by (simp add: effect_def Let_def st0_def)
  have a: "keeps st st0" unfolding st0_def by (rule keeps_new_effect[OF w p])
  have l: "admissible st0 (Compute ?e)" by (simp add: st0_def emit_def)
  have "keeps st0 st'"
  proof (rule and_then_keeps[OF c'])
    fix r1 st1
    assume "run (Compute ?e) st0 = Some (r1, st1)"
    from run[OF this keeps_wf[OF a] l] show "keeps st0 st1" .
  next
    fix v st1
    assume w1: "well_formed st1"
      and "Some (Inr (VDisposer ?e),
           st1\<lparr>effs := (effs st1)[?e := (effs st1 ! ?e)\<lparr>returned := True\<rparr>]\<rparr>) = Some (r, st')"
    then have "st' = st1\<lparr>effs := (effs st1)[?e := (effs st1 ! ?e)\<lparr>returned := True\<rparr>]\<rparr>" by simp
    with keeps_returned[OF w1] show "keeps st1 st'" by simp
  qed
  with a show ?thesis by (rule keeps_trans)
qed

lemma disposer_keeps:
  assumes run: "\<And>t s r s'. run t s = Some (r, s') \<Longrightarrow> well_formed s \<Longrightarrow> admissible s t \<Longrightarrow> keeps s s'"
    and c: "disposer run e st = Some (r, st')" and w: "well_formed st"
  shows "keeps st st'"
proof -
  have a: "keeps st (emit (EvDispose e) st)" using w by (rule keeps_emit) simp
  have "keeps (emit (EvDispose e) st) st'"
  proof (rule and_then_keeps[OF c[unfolded disposer_def]])
    fix r1 st1
    assume m: "run_cleanup run e (emit (EvDispose e) st) = Some (r1, st1)"
    show "keeps (emit (EvDispose e) st) st1"
      by (rule run_cleanup_keeps[where run = run, OF _ m keeps_wf[OF a]]) (rule run)
  next
    fix v st1
    assume w1: "well_formed st1"
      and "Some (Inr VUndefined,
             st1\<lparr>effs := (effs st1)[e := (effs st1 ! e)\<lparr>compute_ref := NoopFn (noops st1)\<rparr>],
                 noops := Suc (noops st1)\<rparr>) = Some (r, st')"
    then have "st' = st1\<lparr>effs := (effs st1)[e := (effs st1 ! e)\<lparr>compute_ref := NoopFn (noops st1)\<rparr>],
                 noops := Suc (noops st1)\<rparr>" by simp
    with keeps_noop[OF w1] show "keeps st1 st'" by simp
  qed
  with a show ?thesis by (rule keeps_trans)
qed

lemma setOrRemoveAttr_keeps:
  assumes run: "\<And>t s r s'. run t s = Some (r, s') \<Longrightarrow> well_formed s \<Longrightarrow> admissible s t \<Longrightarrow> keeps s s'"
    and c: "setOrRemoveAttr env run ns el key raw st = Some (r, st')"
    and w: "well_formed st" and key: "\<not> prefix ''on'' key"
  shows "keeps st st'"
proof (rule and_then_keeps[OF c[unfolded setOrRemoveAttr_def]])
  fix r1 st1
  assume a: "(if is_function raw then run (CallVal raw) st else Some (Inr raw, st)) = Some (r1, st1)"
  show "keeps st st1"
  proof (cases "is_function raw")
    case True
    with a have "run (CallVal raw) st = Some (r1, st1)" by simp
    from run[OF this w] show ?thesis by simp
  next
    case False
    with a w show ?thesis by (simp add: keeps_refl)
  qed
next
  fix v st1
  let ?ns = "attr_ns ns (namespaceURI st1 el) key"
  assume w1: "well_formed st1"
    and a: "(let attrNS = attr_ns ns (namespaceURI st1 el) key in
          if removes v then
            swallow
              (if or_else attrNS None \<noteq> None \<and> attrNS \<noteq> Some ''null''
               then dom env (RemoveAttributeNS el (the attrNS) (strip_prefix key)) st1
               else and_then (dom env (RemoveAttribute el key) st1)
                      (\<lambda>_ st2. dom env (RemoveAttribute el (strip_prefix key)) st2))
          else
            (case dom env (SetAttributeNS el attrNS key (attr_text env key v)) st1 of
               Some (Inl e, st2) \<Rightarrow> dom env (SetAttribute el key (attr_text env key v)) st2
             | other \<Rightarrow> other)) = Some (r, st')"
  show "keeps st1 st'"
  proof (cases "removes v")
    case True
    with a have "swallow (if or_else ?ns None \<noteq> None \<and> ?ns \<noteq> Some ''null''
               then dom env (RemoveAttributeNS el (the ?ns) (strip_prefix key)) st1
               else and_then (dom env (RemoveAttribute el key) st1)
                      (\<lambda>_ st2. dom env (RemoveAttribute el (strip_prefix key)) st2)) = Some (r, st')"
      by (simp add: Let_def)
    from swallow_state[OF this] obtain r1 where
      b: "(if or_else ?ns None \<noteq> None \<and> ?ns \<noteq> Some ''null''
               then dom env (RemoveAttributeNS el (the ?ns) (strip_prefix key)) st1
               else and_then (dom env (RemoveAttribute el key) st1)
                      (\<lambda>_ st2. dom env (RemoveAttribute el (strip_prefix key)) st2)) = Some (r1, st')"
      by blast
    show ?thesis
    proof (cases "or_else ?ns None \<noteq> None \<and> ?ns \<noteq> Some ''null''")
      case True
      with b have "dom env (RemoveAttributeNS el (the ?ns) (strip_prefix key)) st1 = Some (r1, st')"
        by simp
      from keeps_dom[OF this w1] show ?thesis by simp
    next
      case False
      with b have "and_then (dom env (RemoveAttribute el key) st1)
                      (\<lambda>_ st2. dom env (RemoveAttribute el (strip_prefix key)) st2) = Some (r1, st')"
        by (auto split: if_splits)
      then show ?thesis
      proof (rule and_then_keeps)
        fix r2 st1a
        assume "dom env (RemoveAttribute el key) st1 = Some (r2, st1a)"
        from keeps_dom[OF this w1] show "keeps st1 st1a" by simp
      next
        fix v2 st1a
        assume wa: "well_formed st1a"
          and "dom env (RemoveAttribute el (strip_prefix key)) st1a = Some (r1, st')"
        from keeps_dom[OF this(2) wa] show "keeps st1a st'" by simp
      qed
    qed
  next
    case False
    with a have b: "(case dom env (SetAttributeNS el ?ns key (attr_text env key v)) st1 of
               Some (Inl e, st2) \<Rightarrow> dom env (SetAttribute el key (attr_text env key v)) st2
             | other \<Rightarrow> other) = Some (r, st')" by (simp add: Let_def)
    show ?thesis
    proof (cases "dom env (SetAttributeNS el ?ns key (attr_text env key v)) st1")
      case None
      with b show ?thesis by simp
    next
      case (Some p)
      obtain r2 st2 where p: "p = (r2, st2)" by (cases p)
      have e1: "keeps st1 st2" using keeps_dom[OF Some[unfolded p] w1] key by simp
      show ?thesis
      proof (cases r2)
        case (Inl e)
        with b Some p have "dom env (SetAttribute el key (attr_text env key v)) st2 = Some (r, st')"
          by simp
        from keeps_dom[OF this keeps_wf[OF e1]] key have "keeps st2 st'" by simp
        with e1 show ?thesis by (rule keeps_trans)
      next
        case (Inr x)
        with b Some p have "st' = st2" by simp
        with e1 show ?thesis by simp
      qed
    qed
  qed
qed

lemma exec_keeps:
  "exec env n t st = Some (r, st') \<Longrightarrow> well_formed st \<Longrightarrow> admissible st t \<Longrightarrow> keeps st st'"
proof (induction n arbitrary: t st r st')
  case 0
  then show ?case by simp
next
  case (Suc n)
  have IH: "\<And>t s r s'. (\<lambda>t s'. exec env n t s') t s = Some (r, s') \<Longrightarrow> well_formed s
      \<Longrightarrow> admissible s t \<Longrightarrow> keeps s s'"
    using Suc.IH by simp
  note ex = Suc.prems(1)
  note w = Suc.prems(2)
  note adm = Suc.prems(3)
  show ?case
  proof (cases t)
    case (Run p)
    show ?thesis
    proof (cases p)
      case (Return v)
      with ex Run w show ?thesis by (simp add: keeps_refl)
    next
      case (Throw v)
      with ex Run w show ?thesis by (simp add: keeps_refl)
    next
      case (Call f k)
      with ex Run have "and_then (exec env n (CallVal f) st) (\<lambda>v st'. exec env n (Run (k v)) st')
        = Some (r, st')" by simp
      then show ?thesis
      proof (rule and_then_keeps)
        fix r1 st1
        assume "exec env n (CallVal f) st = Some (r1, st1)"
        from Suc.IH[OF this w] show "keeps st st1" by simp
      next
        fix v st1
        assume "well_formed st1" "exec env n (Run (k v)) st1 = Some (r, st')"
        from Suc.IH[OF this(2,1)] show "keeps st1 st'" by simp
      qed
    next
      case (Write s v q)
      show ?thesis
      proof (cases "s < length (sigs st)")
        case True
        with ex Run Write
        have "and_then (setter (\<lambda>t s'. exec env n t s') s v st) (\<lambda>_ st'. exec env n (Run q) st')
          = Some (r, st')" by simp
        then show ?thesis
        proof (rule and_then_keeps)
          fix r1 st1
          assume a: "setter (\<lambda>t s'. exec env n t s') s v st = Some (r1, st1)"
          show "keeps st st1"
            by (rule setter_keeps[where run = "\<lambda>t s'. exec env n t s'", OF _ a True w]) (rule IH)
        next
          fix v1 st1
          assume "well_formed st1" "exec env n (Run q) st1 = Some (r, st')"
          from Suc.IH[OF this(2,1)] show "keeps st1 st'" by simp
        qed
      next
        case False
        with ex Run Write w show ?thesis by (simp add: keeps_refl)
      qed
    next
      case (NewSignal v k)
      with ex Run have a: "exec env n (Run (k (fst (signal v st)))) (snd (signal v st)) = Some (r, st')"
        by (simp add: case_prod_unfold)
      note k1 = keeps_signal[OF w, of v]
      from Suc.IH[OF a keeps_wf[OF k1]] have "keeps (snd (signal v st)) st'" by simp
      with k1 show ?thesis by (rule keeps_trans)
    next
      case (NewEffect f k)
      with ex Run have "and_then (exec env n (Effect f) st) (\<lambda>d st'. exec env n (Run (k d)) st')
        = Some (r, st')" by simp
      then show ?thesis
      proof (rule and_then_keeps)
        fix r1 st1
        assume "exec env n (Effect f) st = Some (r1, st1)"
        from Suc.IH[OF this w] show "keeps st st1" by simp
      next
        fix v st1
        assume "well_formed st1" "exec env n (Run (k v)) st1 = Some (r, st')"
        from Suc.IH[OF this(2,1)] show "keeps st1 st'" by simp
      qed
    qed
  next
    case (CallVal f)
    show ?thesis
    proof (cases f)
      case (VAccessor s)
      show ?thesis
      proof (cases "s < length (sigs st)")
        case True
        with ex CallVal VAccessor have "snd (accessor s st) = st'" by simp
        with keeps_read[OF w True] show ?thesis by simp
      next
        case False
        with ex CallVal VAccessor w show ?thesis by (simp add: keeps_refl)
      qed
    next
      case (VSetter s)
      show ?thesis
      proof (cases "s < length (sigs st)")
        case True
        with ex CallVal VSetter
        have a: "setter (\<lambda>t s'. exec env n t s') s VUndefined st = Some (r, st')" by simp
        show ?thesis
          by (rule setter_keeps[where run = "\<lambda>t s'. exec env n t s'", OF _ a True w]) (rule IH)
      next
        case False
        with ex CallVal VSetter w show ?thesis by (simp add: keeps_refl)
      qed
    next
      case (VFun i)
      with ex CallVal have "exec env n (Run (fns env i)) st = Some (r, st')" by simp
      from Suc.IH[OF this w] show ?thesis by simp
    next
      case (VDisposer e)
      show ?thesis
      proof (cases "e < length (effs st) \<and> returned (effs st ! e)")
        case True
        with ex CallVal VDisposer have "exec env n (Dispose e) st = Some (r, st')" by simp
        from Suc.IH[OF this w] show ?thesis by simp
      next
        case False
        with ex CallVal VDisposer w show ?thesis by (auto simp: keeps_refl)
      qed
    qed (use ex CallVal w in \<open>auto intro: keeps_refl\<close>)
  next
    case (CallCb cb)
    show ?thesis
    proof (cases cb)
      case (JsFn f)
      with ex CallCb have "exec env n (CallVal f) st = Some (r, st')" by simp
      from Suc.IH[OF this w] show ?thesis by simp
    next
      case (AttrEffect ns el key v)
      with ex CallCb have "exec env n (SetAttr ns el key v) st = Some (r, st')" by simp
      from Suc.IH[OF this w] adm CallCb AttrEffect show ?thesis by simp
    next
      case (TextEffect tn child)
      with ex CallCb have "and_then (exec env n (CallVal child) st)
            (\<lambda>v st'. dom env (SetTextContent tn (js_String env v)) st') = Some (r, st')" by simp
      then show ?thesis
      proof (rule and_then_keeps)
        fix r1 st1
        assume "exec env n (CallVal child) st = Some (r1, st1)"
        from Suc.IH[OF this w] show "keeps st st1" by simp
      next
        fix v st1
        assume "well_formed st1" "dom env (SetTextContent tn (js_String env v)) st1 = Some (r, st')"
        from keeps_dom[OF this(2,1)] show "keeps st1 st'" by simp
      qed
    qed
  next
    case (Notify s i)
    with adm have s: "s < length (sigs st)" by simp
    show ?thesis
    proof (cases "i < length (observers (sigs st ! s))")
      case True
      with ex Notify have "and_then (exec env n (Invoke (observers (sigs st ! s) ! i)) st)
             (\<lambda>_ st'. exec env n (Notify s (Suc i)) st') = Some (r, st')" by simp
      then show ?thesis
      proof (rule and_then_keeps)
        fix r1 st1
        assume a: "exec env n (Invoke (observers (sigs st ! s) ! i)) st = Some (r1, st1)"
        have "in_range (length (effs st)) (observers (sigs st ! s) ! i)"
          using wf_observers[OF w s] True by (simp add: list_all_length)
        with Suc.IH[OF a w] show "keeps st st1" by simp
      next
        fix v st1
        assume a: "exec env n (Invoke (observers (sigs st ! s) ! i)) st = Some (Inr v, st1)"
          and w1: "well_formed st1" and b: "exec env n (Notify s (Suc i)) st1 = Some (r, st')"
        have "length (sigs st) \<le> length (sigs st1)" using exec_sound[OF a] by (simp add: sound_def)
        with s Suc.IH[OF b w1] show "keeps st1 st'" by simp
      qed
    next
      case False
      with ex Notify w show ?thesis by (simp add: keeps_refl)
    qed
  next
    case (Invoke ob)
    have k1: "keeps st (emit (EvInvoke ob) st)" using w by (rule keeps_emit) simp
    show ?thesis
    proof (cases ob)
      case (ComputeFn e)
      with ex Invoke have a: "exec env n (Compute e) (emit (EvInvoke ob) st) = Some (r, st')" by simp
      have "e < length (effs (emit (EvInvoke ob) st))" using adm Invoke ComputeFn by (simp add: emit_def)
      with Suc.IH[OF a keeps_wf[OF k1]] have "keeps (emit (EvInvoke ob) st) st'" by simp
      with k1 show ?thesis by (rule keeps_trans)
    next
      case (NoopFn k)
      with ex Invoke k1 show ?thesis by auto
    qed
  next
    case (Compute e)
    with ex have a: "compute (\<lambda>t s'. exec env n t s') e st = Some (r, st')" by simp
    from adm Compute have e: "e < length (effs st)" by simp
    show ?thesis
      by (rule compute_keeps[where run = "\<lambda>t s'. exec env n t s'", OF _ a w e]) (rule IH)
  next
    case (Effect f)
    with ex have a: "effect (\<lambda>t s'. exec env n t s') (JsFn f) st = Some (r, st')" by simp
    have p: "plain (JsFn f)" by simp
    show ?thesis
      by (rule effect_keeps[where run = "\<lambda>t s'. exec env n t s'", OF _ a w p]) (rule IH)
  next
    case (Dispose e)
    with ex have a: "disposer (\<lambda>t s'. exec env n t s') e st = Some (r, st')" by simp
    show ?thesis
      by (rule disposer_keeps[where run = "\<lambda>t s'. exec env n t s'", OF _ a w]) (rule IH)
  next
    case (SetAttr ns el key v)
    with ex have a: "setOrRemoveAttr env (\<lambda>t s'. exec env n t s') ns el key v st = Some (r, st')"
      by simp
    from adm SetAttr have k: "\<not> prefix ''on'' key" by simp
    show ?thesis
      by (rule setOrRemoveAttr_keeps[where run = "\<lambda>t s'. exec env n t s'", OF _ a w k]) (rule IH)
  qed
qed

lemma effect_exec_keeps:
  assumes c: "effect (\<lambda>t s'. exec env n t s') cb st = Some (r, st')"
    and w: "well_formed st" and p: "plain cb"
  shows "keeps st st'"
  by (rule effect_keeps[where run = "\<lambda>t s'. exec env n t s'", OF _ c w p]) (rule exec_keeps)

lemma set_prop_keeps:
  assumes c: "set_prop env (\<lambda>t s'. exec env n t s') el key v st = Some (r, st')"
    and w: "well_formed st"
  shows "keeps st st'"
proof (cases "prefix ''on'' key")
  case False
  with c have a: "effect (\<lambda>t s'. exec env n t s')
             (AttrEffect (if key = ''xmlns'' then None else namespaceURI st el) el key v) st
           = Some (r, st')"
    by (simp add: set_prop_def)
  from False have p: "plain (AttrEffect (if key = ''xmlns'' then None else namespaceURI st el) el key v)"
    by simp
  show ?thesis by (rule effect_exec_keeps[OF a w p])
next
  case on: True
  show ?thesis
  proof (cases "is_function v")
    case False
    with c on have "st' = emit (EvWarn (warning env key v)) st" by (simp add: set_prop_def)
    with keeps_emit[OF w, of "EvWarn (warning env key v)"] show ?thesis by simp
  next
    case True
    with c on have "and_then (dom env (RemoveEventListener el (toLowerCase (drop 2 key)) v) st)
                (\<lambda>_ st1. dom env (AddEventListener el (toLowerCase (drop 2 key)) v) st1)
           = Some (r, st')" by (simp add: set_prop_def)
    then show ?thesis
    proof (rule and_then_keeps)
      fix r1 st1
      assume "dom env (RemoveEventListener el (toLowerCase (drop 2 key)) v) st = Some (r1, st1)"
      from keeps_dom[OF this w] show "keeps st st1" by simp
    next
      fix x st1
      assume "well_formed st1"
        "dom env (AddEventListener el (toLowerCase (drop 2 key)) v) st1 = Some (r, st')"
      from keeps_dom[OF this(2,1)] show "keeps st1 st'" by simp
    qed
  qed
qed

lemma set_props_keeps:
  "set_props env (\<lambda>t s'. exec env n t s') el kvs st = Some (r, st') \<Longrightarrow> well_formed st \<Longrightarrow>
     keeps st st'"
proof (induction kvs arbitrary: st)
  case Nil
  then show ?case by (simp add: keeps_refl)
next
  case (Cons kv kvs)
  obtain key v where kv: "kv = (key, v)" by (cases kv)
  from Cons.prems(1) kv have "and_then (set_prop env (\<lambda>t s'. exec env n t s') el key v st)
     (\<lambda>_ st'. set_props env (\<lambda>t s'. exec env n t s') el kvs st') = Some (r, st')" by simp
  then show ?case
  proof (rule and_then_keeps)
    fix r1 st1
    assume "set_prop env (\<lambda>t s'. exec env n t s') el key v st = Some (r1, st1)"
    from set_prop_keeps[OF this Cons.prems(2)] show "keeps st st1" .
  next
    fix x st1
    assume "well_formed st1" "set_props env (\<lambda>t s'. exec env n t s') el kvs st1 = Some (r, st')"
    from Cons.IH[OF this(2,1)] show "keeps st1 st'" .
  qed
qed

lemma createTextNode_keeps:
  "well_formed st \<Longrightarrow> keeps st (snd (createTextNode s st))"
  by (rule keeps_event[where ev = "EvDom (CreateTextNode (length (nodes st)) s)"])
    (simp_all add: createTextNode_def wf_emit wf_nodes, simp_all add: emit_def)

lemma add_text_keeps:
  assumes "(case createTextNode s st of (tn, st1) \<Rightarrow> dom env (AppendChild parent tn) st1)
             = Some (r, st')" and w: "well_formed st"
  shows "keeps st st'"
proof -
  obtain tn st1 where c: "createTextNode s st = (tn, st1)" by (cases "createTextNode s st")
  with assms have d: "dom env (AppendChild parent tn) st1 = Some (r, st')" by simp
  have k: "keeps st st1" using createTextNode_keeps[OF w, of s] c by simp
  from keeps_dom[OF d keeps_wf[OF k]] have "keeps st1 st'" by simp
  with k show ?thesis by (rule keeps_trans)
qed

lemma add_fun_keeps:
  assumes a: "(case createTextNode [] st of
              (tn, st1) \<Rightarrow>
                and_then (effect (\<lambda>t s'. exec env n t s') (TextEffect tn child) st1)
                  (\<lambda>_ st2. dom env (AppendChild parent tn) st2)) = Some (r, st')"
    and w: "well_formed st"
  shows "keeps st st'"
proof -
  obtain tn st1 where c: "createTextNode [] st = (tn, st1)" by (cases "createTextNode [] st")
  have k: "keeps st st1" using createTextNode_keeps[OF w, of "[]"] c by simp
  from a c have "and_then (effect (\<lambda>t s'. exec env n t s') (TextEffect tn child) st1)
                  (\<lambda>_ st2. dom env (AppendChild parent tn) st2) = Some (r, st')" by simp
  then have "keeps st1 st'"
  proof (rule and_then_keeps)
    fix r1 st2
    assume "effect (\<lambda>t s'. exec env n t s') (TextEffect tn child) st1 = Some (r1, st2)"
    from effect_exec_keeps[OF this keeps_wf[OF k]] show "keeps st1 st2" by simp
  next
    fix x st2
    assume "well_formed st2" "dom env (AppendChild parent tn) st2 = Some (r, st')"
    from keeps_dom[OF this(2,1)] show "keeps st2 st'" by simp
  qed
  with k show ?thesis by (rule keeps_trans)
qed

lemma add_keeps:
  "add env run parent child st = Some (r, st') \<Longrightarrow> run = (\<lambda>t s'. exec env n t s') \<Longrightarrow>
     well_formed st \<Longrightarrow> keeps st st'"
  "add_forEach env run parent cs st = Some (r, st') \<Longrightarrow> run = (\<lambda>t s'. exec env n t s') \<Longrightarrow>
     well_formed st \<Longrightarrow> keeps st st'"
proof (induction env run parent child st and env run parent cs st arbitrary: r st' and r st'
    rule: add_add_forEach.induct)
  case (1 env run parent cs st)
  then show ?case by simp
next
  case (2 env run parent c st)
  from 2 show ?case by (auto dest: keeps_dom)
next
  case (3 env run parent n st)
  from 3 show ?case by (auto dest: add_text_keeps)
next
  case (4 env run parent s st)
  from 4 show ?case by (auto dest: add_text_keeps)
next
  case (6 env run parent st)
  then show ?case by (simp add: keeps_refl)
next
  case (7 env run parent c cs st)
  from 7(3) have "and_then (add env run parent c st)
     (\<lambda>_ st'. add_forEach env run parent cs st') = Some (r, st')" by simp
  then show ?case
  proof (rule and_then_keeps)
    fix r1 st1
    assume "add env run parent c st = Some (r1, st1)"
    from 7(1)[OF this 7(4) 7(5)] show "keeps st st1" .
  next
    fix x st1
    assume "well_formed st1" "add_forEach env run parent cs st1 = Some (r, st')"
    from 7(2)[OF this(2) 7(4) this(1)] show "keeps st1 st'" .
  qed
qed (auto simp: keeps_refl dest: add_fun_keeps split: if_splits)

lemma createElement_keeps:
  assumes c: "createElement env (\<lambda>t s'. exec env n t s') tagName first children st = Some (r, st')"
    and w: "well_formed st"
  shows "keeps st st'"
proof -
  let ?run = "\<lambda>t s'. exec env n t s'"
  define el where "el = length (nodes st)"
  define ev where "ev = (if or_else (namespaceElements env tagName) None \<noteq> None
                 then EvDom (CreateElementNS el (the (namespaceElements env tagName)) tagName)
                 else EvDom (CreateElement el tagName))"
  define st0 where "st0 = emit ev (st\<lparr>nodes := nodes st @ [Element tagName (element_ns env tagName)]\<rparr>)"
  have st0: "(if or_else (namespaceElements env tagName) None \<noteq> None
                 then emit (EvDom (CreateElementNS el (the (namespaceElements env tagName)) tagName))
                        (st\<lparr>nodes := nodes st @ [Element tagName (namespaceElements env tagName)]\<rparr>)
                 else emit (EvDom (CreateElement el tagName))
                        (st\<lparr>nodes := nodes st @ [Element tagName (Some xhtml)]\<rparr>)) = st0"
    by (simp add: st0_def ev_def element_ns_def)
  have k0: "keeps st st0"
    by (rule keeps_event[where ev = ev])
      (simp_all add: st0_def wf_emit wf_nodes w, simp_all add: emit_def ev_def)
  from c have c': "and_then (if is_props first then set_props env ?run el (entries env first) st0
                   else Some (Inr VUndefined, st0))
           (\<lambda>_ st1.
              and_then (if is_child first then add env ?run el first st1
                        else Some (Inr VUndefined, st1))
                (\<lambda>_ st2.
                   and_then (add_forEach env ?run el children st2)
                     (\<lambda>_ st3. Some (Inr (VNode el), st3)))) = Some (r, st')"
    unfolding createElement_def Let_def el_def[symmetric] st0 .
  have "keeps st0 st'"
  proof (rule and_then_keeps[OF c'])
    fix r1 st1
    assume "(if is_props first then set_props env ?run el (entries env first) st0
                   else Some (Inr VUndefined, st0)) = Some (r1, st1)"
    then show "keeps st0 st1"
      using keeps_wf[OF k0] by (auto split: if_splits intro: keeps_refl set_props_keeps)
  next
    fix x st1
    assume w1: "well_formed st1"
      and c2: "and_then (if is_child first then add env ?run el first st1
                        else Some (Inr VUndefined, st1))
                (\<lambda>_ st2.
                   and_then (add_forEach env ?run el children st2)
                     (\<lambda>_ st3. Some (Inr (VNode el), st3))) = Some (r, st')"
    show "keeps st1 st'"
    proof (rule and_then_keeps[OF c2])
      fix r2 st2
      assume "(if is_child first then add env ?run el first st1
                        else Some (Inr VUndefined, st1)) = Some (r2, st2)"
      then show "keeps st1 st2"
        using w1 by (auto split: if_splits intro: keeps_refl add_keeps(1)[OF _ refl])
    next
      fix y st2
      assume w2: "well_formed st2"
        and c3: "and_then (add_forEach env ?run el children st2)
                     (\<lambda>_ st3. Some (Inr (VNode el), st3)) = Some (r, st')"
      show "keeps st2 st'"
      proof (rule and_then_keeps[OF c3])
        fix r3 st3
        assume "add_forEach env ?run el children st2 = Some (r3, st3)"
        from add_keeps(2)[OF this refl w2] show "keeps st2 st3" .
      next
        fix z st3
        assume "well_formed st3" "Some (Inr (VNode el), st3) = Some (r, st')"
        then show "keeps st3 st'" by (auto intro: keeps_refl)
      qed
    qed
  qed
  with k0 show ?thesis by (rule keeps_trans)
qed

lemma calm_no_on_attr:
  assumes "list_all calm tr" "prefix ''on'' k"
  shows "EvDom (SetAttributeNS el ns k x) \<notin> set tr \<and> EvDom (SetAttribute el k x) \<notin> set tr
       \<and> EvDomThrow (SetAttributeNS el ns k x) \<notin> set tr
       \<and> EvDomThrow (SetAttribute el k x) \<notin> set tr"
  using assms by (auto simp: list_all_iff)

lemma well_formed_start:
  "well_formed \<lparr>sigs = [], effs = [], Observer = None, noops = 0, nodes = [], trace = []\<rparr>"
  by (simp add: well_formed_def)

lemma exec_well_formed:
  "exec env n t st = Some (r, st') \<Longrightarrow> well_formed st \<Longrightarrow> admissible st t \<Longrightarrow> well_formed st'"
  by (rule keeps_wf[OF exec_keeps])

section \<open>Registration and notification\<close>

text \<open>
  C1 says that an effect is registered as an observer of a signal by calling the signal's
  accessor while the effect is executing, so that a write to the signal runs the effect's
  callback again. The code does this only until any other effect run ends: it keeps one
  global pointer \<open>Observer\<close>, and the \<open>finally\<close> of every \<open>compute\<close> (line 35) sets it to
  \<open>null\<close> instead of putting back what it held. Below, first an effect whose callback reads
  the signal \<open>0\<close>: the effect is in the observer set, and a write runs its callback
  (\<open>EvFn 0\<close>). Then an effect whose callback starts the effect \<open>1\<close> and after that reads the
  signal \<open>0\<close>: the read is made while the effect \<open>0\<close> is executing and is recorded, but the
  observer set stays empty, and a write to the signal runs no callback.
\<close>

theorem nested_effect_loses_registration:
  "exec env_demo 20 (Effect (VFun 0)) st_sig = Some (Inr (VDisposer 0), st_eff)
   \<and> observers (sigs st_eff ! 0) = [ComputeFn 0]
   \<and> exec env_demo 20 (Run (Write 0 (VNum 1) (Return VUndefined))) st_eff
       = Some (Inr VUndefined,
               st_eff\<lparr>sigs := [\<lparr>val = VNum 1, observers = [ComputeFn 0]\<rparr>],
                       trace := trace st_eff @ [EvWrite 0 (VNum 1), EvInvoke (ComputeFn 0), EvFn 0,
                                                EvRead 0 (VNum 1)]\<rparr>)
   \<and> exec env_demo 20 (Effect (VFun 1)) st_sig = Some (Inr (VDisposer 0), st_nested)
   \<and> trace st_nested = [EvSignal 0 (VNum 0), EvEffect 0 (JsFn (VFun 1)), EvFn 0,
                          EvEffect 1 (JsFn (VFun 2)), EvFn 1, EvRead 0 (VNum 0)]
   \<and> observers (sigs st_nested ! 0) = []
   \<and> exec env_demo 20 (Run (Write 0 (VNum 1) (Return VUndefined))) st_nested
       = Some (Inr VUndefined,
               st_nested\<lparr>sigs := [\<lparr>val = VNum 1, observers = []\<rparr>],
                          trace := trace st_nested @ [EvWrite 0 (VNum 1)]\<rparr>)"
  by code_simp

section \<open>Disposal\<close>

text \<open>
  C2 says that after the disposer no write to a signal the effect had read runs the
  callback again. The code does run it again: the disposer rebinds the variable
  \<open>compute\<close> (line 42), but the \<open>observers\<close> set of the signal still holds the function that
  \<open>compute\<close> was bound to, and the setter calls that. Here: \<open>signal(0)\<close>, an effect that reads
  the signal, its disposer, then a write. The write is followed by \<open>EvFn 0\<close>, the callback
  of the disposed effect.
\<close>

theorem disposed_effect_runs_again:
  "exec env_demo 20 (Effect (VFun 0)) st_sig = Some (Inr (VDisposer 0), st_eff)
   \<and> exec env_demo 20 (CallVal (VDisposer 0)) st_eff = Some (Inr VUndefined, st_disposed)
   \<and> exec env_demo 20 (Run (Write 0 (VNum 1) (Return VUndefined))) st_disposed
       = Some (Inr VUndefined, st_rerun)
   \<and> since st_disposed st_rerun
       = [EvWrite 0 (VNum 1), EvInvoke (ComputeFn 0), EvFn 0, EvRead 0 (VNum 1),
          EvInvoke (NoopFn 0)]"
  by code_simp

section \<open>Cleanup\<close>

text \<open>
  C3. When the stored \<open>cleanup\<close> of an effect is a function, a re-run of the effect that
  returns normally calls it once, then calls the callback once, and stores what the
  callback returned as the new \<open>cleanup\<close>, in place of the old one; a call of the
  disposer that returns normally calls the stored \<open>cleanup\<close> once. In the history of
  the run the only calls of a cleanup of this effect, beyond that one, are those made
  inside the two callbacks themselves (\<open>t1\<close>, \<open>t2\<close>).
\<close>

theorem cleanup_once_per_run:
  "(exec env (Suc n) (Compute e) st = Some (Inr x, st') \<longrightarrow> is_function (cleanup (effs st ! e)) \<longrightarrow>
      e < length (effs st) \<longrightarrow>
      (\<exists>t1 t2 y st1 w st2.
         exec env n (CallVal (cleanup (effs st ! e))) (emit (EvCleanup e (cleanup (effs st ! e))) st)
           = Some (Inr y, st1)
       \<and> trace st1 = trace st @ EvCleanup e (cleanup (effs st ! e)) # t1
       \<and> exec env n (CallCb (fn (effs st1 ! e)))
            (emit (EvFn e) (st1\<lparr>Observer := Some (compute_ref (effs st1 ! e))\<rparr>)) = Some (Inr w, st2)
       \<and> trace st2 = trace st1 @ EvFn e # t2
       \<and> since st st' = EvCleanup e (cleanup (effs st ! e)) # t1 @ EvFn e # t2
       \<and> length (filter (is_cleanup e) (since st st'))
           = 1 + length (filter (is_cleanup e) t1) + length (filter (is_cleanup e) t2)
       \<and> cleanup (effs st' ! e) = w))
   \<and> (exec env (Suc n) (Dispose e) sd = Some (Inr xd, sd') \<longrightarrow> is_function (cleanup (effs sd ! e)) \<longrightarrow>
      (\<exists>t1 y st1.
         exec env n (CallVal (cleanup (effs sd ! e)))
            (emit (EvCleanup e (cleanup (effs sd ! e))) (emit (EvDispose e) sd)) = Some (Inr y, st1)
       \<and> since sd sd' = EvDispose e # EvCleanup e (cleanup (effs sd ! e)) # t1
       \<and> trace st1 = trace sd'
       \<and> length (filter (is_cleanup e) (since sd sd')) = 1 + length (filter (is_cleanup e) t1)))"
proof (intro conjI impI)
  assume a: "exec env (Suc n) (Compute e) st = Some (Inr x, st')"
    "is_function (cleanup (effs st ! e))" "e < length (effs st)"
  from compute_run_shape[OF a(1) is_function_truthy[OF a(2)] a(3)]
  obtain t1 t2 y st1 w st2 where
    s: "exec env n (CallVal (cleanup (effs st ! e))) (emit (EvCleanup e (cleanup (effs st ! e))) st)
           = Some (Inr y, st1)"
       "trace st1 = trace st @ EvCleanup e (cleanup (effs st ! e)) # t1"
       "exec env n (CallCb (fn (effs st1 ! e)))
            (emit (EvFn e) (st1\<lparr>Observer := Some (compute_ref (effs st1 ! e))\<rparr>)) = Some (Inr w, st2)"
       "trace st2 = trace st1 @ EvFn e # t2"
       "since st st' = EvCleanup e (cleanup (effs st ! e)) # t1 @ EvFn e # t2"
       "cleanup (effs st' ! e) = w"
    by blast
  have "length (filter (is_cleanup e) (since st st'))
           = 1 + length (filter (is_cleanup e) t1) + length (filter (is_cleanup e) t2)"
    by (simp add: s(5))
  with s show "\<exists>t1 t2 y st1 w st2.
         exec env n (CallVal (cleanup (effs st ! e))) (emit (EvCleanup e (cleanup (effs st ! e))) st)
           = Some (Inr y, st1)
       \<and> trace st1 = trace st @ EvCleanup e (cleanup (effs st ! e)) # t1
       \<and> exec env n (CallCb (fn (effs st1 ! e)))
            (emit (EvFn e) (st1\<lparr>Observer := Some (compute_ref (effs st1 ! e))\<rparr>)) = Some (Inr w, st2)
       \<and> trace st2 = trace st1 @ EvFn e # t2
       \<and> since st st' = EvCleanup e (cleanup (effs st ! e)) # t1 @ EvFn e # t2
       \<and> length (filter (is_cleanup e) (since st st'))
           = 1 + length (filter (is_cleanup e) t1) + length (filter (is_cleanup e) t2)
       \<and> cleanup (effs st' ! e) = w"
    by blast
next
  assume a: "exec env (Suc n) (Dispose e) sd = Some (Inr xd, sd')"
    "is_function (cleanup (effs sd ! e))"
  from dispose_shape[OF a(1) is_function_truthy[OF a(2)]]
  obtain t1 y st1 where
    s: "exec env n (CallVal (cleanup (effs sd ! e)))
            (emit (EvCleanup e (cleanup (effs sd ! e))) (emit (EvDispose e) sd)) = Some (Inr y, st1)"
       "since sd sd' = EvDispose e # EvCleanup e (cleanup (effs sd ! e)) # t1"
       "trace st1 = trace sd'"
    by blast
  have "length (filter (is_cleanup e) (since sd sd')) = 1 + length (filter (is_cleanup e) t1)"
    by (simp add: s(2))
  with s show "\<exists>t1 y st1.
         exec env n (CallVal (cleanup (effs sd ! e)))
            (emit (EvCleanup e (cleanup (effs sd ! e))) (emit (EvDispose e) sd)) = Some (Inr y, st1)
       \<and> since sd sd' = EvDispose e # EvCleanup e (cleanup (effs sd ! e)) # t1
       \<and> trace st1 = trace sd'
       \<and> length (filter (is_cleanup e) (since sd sd')) = 1 + length (filter (is_cleanup e) t1)"
    by blast
qed

theorem cleanup_once_per_run_witness:
  "exec env_demo (Suc 19) (Compute 0) st_cleanup = Some (Inr VUndefined, st_cleanup_rerun)
   \<and> is_function (cleanup (effs st_cleanup ! 0)) \<and> (0::nat) < length (effs st_cleanup)
   \<and> since st_cleanup st_cleanup_rerun = [EvCleanup 0 (VFun 2), EvFn 0, EvRead 0 (VNum 0)]
   \<and> length (filter (is_cleanup 0) (since st_cleanup st_cleanup_rerun)) = 1
   \<and> cleanup (effs st_cleanup_rerun ! 0) = VFun 2
   \<and> exec env_demo (Suc 19) (Dispose 0) st_cleanup = Some (Inr VUndefined, st_cleanup_disposed)
   \<and> since st_cleanup st_cleanup_disposed = [EvDispose 0, EvCleanup 0 (VFun 2)]
   \<and> length (filter (is_cleanup 0) (since st_cleanup st_cleanup_disposed)) = 1"
proof -
  have a: "exec env_demo (Suc 19) (Compute 0) st_cleanup = Some (Inr VUndefined, st_cleanup_rerun)"
    by code_simp
  have b: "is_function (cleanup (effs st_cleanup ! 0))" "(0::nat) < length (effs st_cleanup)"
    by (simp_all add: st_cleanup_def)
  have c: "exec env_demo (Suc 19) (Dispose 0) st_cleanup = Some (Inr VUndefined, st_cleanup_disposed)"
    by code_simp
  have d: "since st_cleanup st_cleanup_rerun = [EvCleanup 0 (VFun 2), EvFn 0, EvRead 0 (VNum 0)]"
    "since st_cleanup st_cleanup_disposed = [EvDispose 0, EvCleanup 0 (VFun 2)]"
    "cleanup (effs st_cleanup_rerun ! 0) = VFun 2"
    by (simp_all add: since_def st_cleanup_def st_cleanup_rerun_def st_cleanup_disposed_def)
  have e: "length (filter (is_cleanup 0) (since st_cleanup st_cleanup_rerun)) = 1"
    "length (filter (is_cleanup 0) (since st_cleanup st_cleanup_disposed)) = 1"
    by (simp_all add: d)
  from cleanup_once_per_run[of env_demo 19 0 st_cleanup VUndefined st_cleanup_rerun
      st_cleanup VUndefined st_cleanup_disposed] a b c d e
  show ?thesis by blast
qed

section \<open>Reading a signal outside any effect\<close>

text \<open>
  C4. When the global \<open>Observer\<close> is \<open>null\<close>, the accessor of a signal returns the stored
  value and changes no signal cell: no observer is registered, for this signal or any
  other. (The only change is the entry in the history.)
\<close>

theorem accessor_outside_effect:
  "Observer st = None \<Longrightarrow>
     accessor s st = (Inr (val (sigs st ! s)), emit (EvRead s (val (sigs st ! s))) st)
     \<and> sigs (snd (accessor s st)) = sigs st
     \<and> observers (sigs (snd (accessor s st)) ! s) = observers (sigs st ! s)"
  by (simp add: accessor_def emit_def)

theorem accessor_outside_effect_witness:
  "Observer st_idle = None
   \<and> accessor 0 st_idle = (Inr (VNum 7), emit (EvRead 0 (VNum 7)) st_idle)
   \<and> observers (sigs (snd (accessor 0 st_idle)) ! 0) = [ComputeFn 0]"
  using accessor_outside_effect [of st_idle 0] by (simp add: st_idle_def emit_def)


section \<open>One effect per reactive attribute and child\<close>



section \<open>The fallback of \<open>setOrRemoveAttr\<close>\<close>

text \<open>
  C6. Let \<open>v\<close> be the value of the prop (the result of \<open>rawValue()\<close> when \<open>rawValue\<close> is a
  function), not \<open>null\<close>, \<open>undefined\<close>, \<open>false\<close> or the empty string. When \<open>setAttributeNS\<close>
  throws, \<open>setOrRemoveAttr\<close> does not throw that exception: its outcome is the outcome of
  \<open>setAttribute\<close> with the same key and the same string.
\<close>

theorem setAttribute_fallback:
  "(if is_function rawValue then run (CallVal rawValue) st else Some (Inr rawValue, st))
      = Some (Inr v, st1) \<Longrightarrow>
   \<not> removes v \<Longrightarrow>
   dom_throws env (trace st1)
     (SetAttributeNS element (attr_ns ns (namespaceURI st1 element) key) key (attr_text env key v)) \<Longrightarrow>
   setOrRemoveAttr env run ns element key rawValue st
     = dom env (SetAttribute element key (attr_text env key v))
         (emit (EvDomThrow (SetAttributeNS element (attr_ns ns (namespaceURI st1 element) key) key
                              (attr_text env key v))) st1)"
  by (simp add: setOrRemoveAttr_def and_then_def Let_def dom_def)

theorem setAttribute_fallback_witness:
  "(if is_function (VStr ''a'') then exec env_ns_fails 20 (CallVal (VStr ''a'')) st_div
    else Some (Inr (VStr ''a''), st_div)) = Some (Inr (VStr ''a''), st_div)
   \<and> \<not> removes (VStr ''a'')
   \<and> dom_throws env_ns_fails (trace st_div) (SetAttributeNS 0 None ''title'' ''a'')
   \<and> setOrRemoveAttr env_ns_fails (\<lambda>t s'. exec env_ns_fails 20 t s') None 0 ''title'' (VStr ''a'') st_div
       = Some (Inr VUndefined,
               st_div\<lparr>trace := [EvDomThrow (SetAttributeNS 0 None ''title'' ''a''),
                                 EvDom (SetAttribute 0 ''title'' ''a'')]\<rparr>)"
proof -
  have a: "(if is_function (VStr ''a'') then exec env_ns_fails 20 (CallVal (VStr ''a'')) st_div
    else Some (Inr (VStr ''a''), st_div)) = Some (Inr (VStr ''a''), st_div)" by simp
  have b: "\<not> removes (VStr ''a'')" by (simp add: removes_def)
  have n: "attr_ns None (namespaceURI st_div 0) ''title'' = None"
    by (simp add: attr_ns_def namespaceURI_def st_div_def or_else_def attrNamespaces_def xhtml_def)
  have t: "attr_text env_ns_fails ''title'' (VStr ''a'') = ''a''"
    by (simp add: attr_text_def env_ns_fails_def env_demo_def show_val_def)
  have c: "dom_throws env_ns_fails (trace st_div) (SetAttributeNS 0 None ''title'' ''a'')"
    by (simp add: env_ns_fails_def)
  have d: "dom env_ns_fails (SetAttribute 0 ''title'' ''a'')
             (emit (EvDomThrow (SetAttributeNS 0 None ''title'' ''a'')) st_div)
           = Some (Inr VUndefined,
               st_div\<lparr>trace := [EvDomThrow (SetAttributeNS 0 None ''title'' ''a''),
                                 EvDom (SetAttribute 0 ''title'' ''a'')]\<rparr>)"
    by (simp add: dom_def env_ns_fails_def emit_def st_div_def)
  from setAttribute_fallback[of "VStr ''a''" "\<lambda>t s'. exec env_ns_fails 20 t s'" st_div "VStr ''a''"
      st_div env_ns_fails 0 None "''title''", OF a b] a b c d
  show ?thesis by (simp add: n t)
qed

section \<open>Props that look like handlers and are not\<close>

text \<open>
  C7. When \<open>createElement\<close> returns, the warnings it logged are exactly those for the
  props whose key starts with \<open>on\<close> and whose value is not a function, one each and in
  order; the listeners it attached are exactly those for the props whose key starts with
  \<open>on\<close> and whose value is a function; and no effect that sets an attribute was created
  for a key that starts with \<open>on\<close>. The function applied to each entry (lines 169 to 187)
  does nothing for such a prop but log the warning: the state after it is the state before
  it with that one event added. And no attribute is set for such a key: when the call
  starts in a state that the code reaches (\<open>well_formed\<close>), the state it ends in is one
  again, and no call of \<open>setAttributeNS\<close> or \<open>setAttribute\<close> with a name that starts with
  \<open>on\<close> was made, or attempted, during the call, on any element.
\<close>

theorem createElement_skips_bad_handler:
  "createElement env (\<lambda>t s'. exec env n t s') tagName first children st = Some (Inr r, st') \<Longrightarrow>
     warnings (since st st') = concat (map (prop_warning env) (props_of env first))
     \<and> listeners (since st st')
         = concat (map (prop_listener (length (nodes st))) (props_of env first))
     \<and> (\<forall>k v. (k, v) \<in> set (props_of env first) \<longrightarrow> prefix ''on'' k \<longrightarrow> \<not> is_function v \<longrightarrow>
           warning env k v \<in> set (warnings (since st st')))
     \<and> (\<forall>el name h. AddEventListener el name h \<in> set (listeners (since st st')) \<longrightarrow> is_function h)
     \<and> (\<forall>ns el k v. AttrEffect ns el k v \<in> set (bindings (since st st')) \<longrightarrow> \<not> prefix ''on'' k)
     \<and> (\<forall>k v run el st0. prefix ''on'' k \<longrightarrow> \<not> is_function v \<longrightarrow>
           set_prop env run el k v st0 = Some (Inr VUndefined, emit (EvWarn (warning env k v)) st0))
     \<and> (well_formed st \<longrightarrow>
           well_formed st'
           \<and> (\<forall>el ns k x. prefix ''on'' k \<longrightarrow>
                 EvDom (SetAttributeNS el ns k x) \<notin> set (since st st')
               \<and> EvDom (SetAttribute el k x) \<notin> set (since st st')
               \<and> EvDomThrow (SetAttributeNS el ns k x) \<notin> set (since st st')
               \<and> EvDomThrow (SetAttribute el k x) \<notin> set (since st st')))"
proof -
  assume c: "createElement env (\<lambda>t s'. exec env n t s') tagName first children st = Some (Inr r, st')"
  note B = createElement_built[OF c]
  have w: "warnings (since st st') = concat (map (prop_warning env) (props_of env first))"
    and l: "listeners (since st st')
         = concat (map (prop_listener (length (nodes st))) (props_of env first))"
    and b: "bindings (since st st')
         = concat (map (prop_binding (element_ns env tagName) (length (nodes st)))
                     (props_of env first))
           @ binds_list (Suc (length (nodes st))) (kids_of first children)"
    using B by simp_all
  have 1: "warning env k v \<in> set (warnings (since st st'))"
    if "(k, v) \<in> set (props_of env first)" "prefix ''on'' k" "\<not> is_function v" for k v
  proof -
    have "warning env k v \<in> set (prop_warning env (k, v))" using that by (simp add: prop_warning_def)
    with that(1) show ?thesis unfolding w by auto
  qed
  have 2: "is_function h" if "AddEventListener el name h \<in> set (listeners (since st st'))"
    for el name h
    using that unfolding l by (auto simp: prop_listener_def split: if_splits)
  have 3: "\<not> prefix ''on'' k" if "AttrEffect ns el k v \<in> set (bindings (since st st'))" for ns el k v
  proof -
    from that have "AttrEffect ns el k v \<in> set (concat (map (prop_binding (element_ns env tagName)
        (length (nodes st))) (props_of env first)))
      \<or> AttrEffect ns el k v \<in> set (binds_list (Suc (length (nodes st))) (kids_of first children))"
      unfolding b by simp
    then show ?thesis
    proof
      assume "AttrEffect ns el k v \<in> set (concat (map (prop_binding (element_ns env tagName)
        (length (nodes st))) (props_of env first)))"
      then show ?thesis by (auto simp: prop_binding_def split: if_splits)
    next
      assume "AttrEffect ns el k v \<in> set (binds_list (Suc (length (nodes st))) (kids_of first children))"
      from binds_text(2)[OF this] show ?thesis by simp
    qed
  qed
  have 4: "set_prop env run el k v st0 = Some (Inr VUndefined, emit (EvWarn (warning env k v)) st0)"
    if "prefix ''on'' k" "\<not> is_function v" for k v run el st0
    using that by (simp add: set_prop_def)
  have 5: "well_formed st'
           \<and> (\<forall>el ns k x. prefix ''on'' k \<longrightarrow>
                 EvDom (SetAttributeNS el ns k x) \<notin> set (since st st')
               \<and> EvDom (SetAttribute el k x) \<notin> set (since st st')
               \<and> EvDomThrow (SetAttributeNS el ns k x) \<notin> set (since st st')
               \<and> EvDomThrow (SetAttribute el k x) \<notin> set (since st st'))"
    if wf: "well_formed st"
  proof -
    note K = createElement_keeps[OF c wf]
    then have "list_all calm (since st st')" by (simp add: keeps_def)
    from calm_no_on_attr[OF this] keeps_wf[OF K] show ?thesis by blast
  qed
  from w l 1 2 3 4 5 show ?thesis by blast
qed

theorem createElement_skips_bad_handler_witness:
  "\<exists>st'. createElement env_demo (\<lambda>t s'. exec env_demo 20 t s') ''button'' button_props
            [VAccessor 0, VStr ''hi''] st_sig = Some (Inr (VNode 0), st')
     \<and> (''onclick'', VNum 7) \<in> set (props_of env_demo button_props)
     \<and> prefix ''on'' ''onclick'' \<and> \<not> is_function (VNum 7)
     \<and> warnings (since st_sig st') = [warning env_demo ''onclick'' (VNum 7)]
     \<and> listeners (since st_sig st') = [AddEventListener 0 ''hover'' (VFun 2)]
     \<and> warning env_demo ''onclick'' (VNum 7) \<in> set (warnings (since st_sig st'))
     \<and> set_prop env_demo (\<lambda>t s'. exec env_demo 20 t s') 0 ''onclick'' (VNum 7) st_sig
         = Some (Inr VUndefined, emit (EvWarn (warning env_demo ''onclick'' (VNum 7))) st_sig)
     \<and> well_formed st_sig \<and> well_formed st'
     \<and> EvDom (SetAttributeNS 0 None ''class'' ''b'') \<in> set (since st_sig st')
     \<and> EvDom (SetAttributeNS 0 None ''onclick'' ''7'') \<notin> set (since st_sig st')
     \<and> EvDom (SetAttribute 0 ''onclick'' ''7'') \<notin> set (since st_sig st')
     \<and> EvDomThrow (SetAttributeNS 0 None ''onclick'' ''7'') \<notin> set (since st_sig st')
     \<and> EvDomThrow (SetAttribute 0 ''onclick'' ''7'') \<notin> set (since st_sig st')"
proof -
  let ?c = "createElement env_demo (\<lambda>t s'. exec env_demo 20 t s') ''button'' button_props
            [VAccessor 0, VStr ''hi''] st_sig"
  have "?c \<noteq> None" by code_simp
  moreover have "fst (the ?c) = Inr (VNode 0)" by code_simp
  ultimately obtain st' where a: "?c = Some (Inr (VNode 0), st')"
    by (cases ?c) auto
  have "EvDom (SetAttributeNS 0 None ''class'' ''b'') \<in> set (since st_sig (snd (the ?c)))"
    by code_simp
  with a have cls: "EvDom (SetAttributeNS 0 None ''class'' ''b'') \<in> set (since st_sig st')" by simp
  have b: "concat (map (prop_warning env_demo) (props_of env_demo button_props))
             = [warning env_demo ''onclick'' (VNum 7)]"
    by (simp add: props_of_def button_props_def prop_warning_def)
  have d: "concat (map (prop_listener (length (nodes st_sig))) (props_of env_demo button_props))
             = [AddEventListener 0 ''hover'' (VFun 2)]"
    by code_simp
  have e: "(''onclick'', VNum 7) \<in> set (props_of env_demo button_props)"
    "prefix ''on'' ''onclick''" "\<not> is_function (VNum 7)"
    by (simp_all add: props_of_def button_props_def)
  have w: "well_formed st_sig" by (simp add: well_formed_def st_sig_def)
  from createElement_skips_bad_handler[OF a] a e w cls show ?thesis
    unfolding b d by blast
qed

section \<open>Signals are independent\<close>



section \<open>The tracking pointer is reset\<close>

text \<open>
  C9. Whenever a run of an effect's \<open>compute\<close> ends, normally or by an exception of the
  callback, the global \<open>Observer\<close> is \<open>null\<close>; the same holds when \<open>effect\<close> itself ends
  (the first run). So any execution that starts with \<open>Observer = null\<close> ends with
  \<open>Observer = null\<close>, and a read of a signal after it registers no observer.
\<close>

theorem Observer_reset_after_compute:
  "(exec env n (Compute e) st1 = Some (r1, st1') \<longrightarrow> Observer st1' = None)
   \<and> (effect (\<lambda>t s'. exec env n t s') cb st2 = Some (r2, st2') \<longrightarrow> Observer st2' = None)
   \<and> (Observer st3 = None \<longrightarrow> exec env n t st3 = Some (r3, st3') \<longrightarrow>
        Observer st3' = None \<and> sigs (snd (accessor s st3')) = sigs st3')"
proof (intro conjI impI)
  assume "exec env n (Compute e) st1 = Some (r1, st1')"
  then show "Observer st1' = None" by (rule exec_compute_Observer)
next
  assume "effect (\<lambda>t s'. exec env n t s') cb st2 = Some (r2, st2')"
  then show "Observer st2' = None"
    by (rule effect_Observer[rotated]) (rule exec_compute_Observer)
next
  assume a: "Observer st3 = None" "exec env n t st3 = Some (r3, st3')"
  show o: "Observer st3' = None" by (rule exec_idle[OF a(2) a(1)])
  then show "sigs (snd (accessor s st3')) = sigs st3'"
    by (simp add: accessor_def emit_def)
qed

theorem Observer_reset_after_compute_witness:
  "(\<exists>r st'. exec env_demo 20 (Compute 0) st_eff = Some (r, st') \<and> Observer st' = None)
   \<and> (\<exists>st'. effect (\<lambda>t s'. exec env_demo 20 t s') (JsFn (VFun 4)) st_sig
               = Some (Inl (Thrown (VStr ''boom'')), st') \<and> Observer st' = None)
   \<and> Observer st_eff = None
   \<and> (\<exists>r st'. exec env_demo 20 (Run (Write 0 (VNum 1) (Return VUndefined))) st_eff = Some (r, st')
         \<and> Observer st' = None \<and> sigs (snd (accessor 0 st')) = sigs st')"
proof -
  have "exec env_demo 20 (Compute 0) st_eff \<noteq> None" by code_simp
  then obtain r1 s1 where a1: "exec env_demo 20 (Compute 0) st_eff = Some (r1, s1)" by auto
  have "\<exists>st'. effect (\<lambda>t s'. exec env_demo 20 t s') (JsFn (VFun 4)) st_sig
               = Some (Inl (Thrown (VStr ''boom'')), st')"
    by (simp add: effect_def and_then_def env_demo_def client_fns_def st_sig_def emit_def
        compute_def run_cleanup_def ensuring_def accessor_def set_add_def eval_nat_numeral)
  then obtain s2 where a2: "effect (\<lambda>t s'. exec env_demo 20 t s') (JsFn (VFun 4)) st_sig
               = Some (Inl (Thrown (VStr ''boom'')), s2)" by auto
  have a3: "Observer st_eff = None" by (simp add: st_eff_def)
  have "exec env_demo 20 (Run (Write 0 (VNum 1) (Return VUndefined))) st_eff \<noteq> None" by code_simp
  then obtain r3 s3 where a4: "exec env_demo 20 (Run (Write 0 (VNum 1) (Return VUndefined))) st_eff
     = Some (r3, s3)" by auto
  from Observer_reset_after_compute[of env_demo 20 0 st_eff r1 s1 "JsFn (VFun 4)" st_sig
      "Inl (Thrown (VStr ''boom''))" s2 st_eff "Run (Write 0 (VNum 1) (Return VUndefined))" r3 s3 0]
    a1 a2 a3 a4
  show ?thesis by blast
qed

section \<open>The setter stores before it notifies\<close>

text \<open>
  C10 says that every call of the accessor made while the observers are notified returns
  the newly written value, never the old one. That holds until an observer writes the
  signal itself. Here the signal holds \<open>0\<close> and the callback of its observer, when it reads
  \<open>1\<close>, writes \<open>0\<close> and reads again: during the notification of \<open>set_0(1)\<close> the last two
  calls of the accessor return \<open>0\<close>, the value the signal had before the call. The callback
  returns what the last read gave, and line 33 stores it: \<open>cleanup\<close> is \<open>0\<close>.
\<close>

theorem read_after_observer_write:
  "exec env_rewrite 40 (Effect (VFun 5)) st_sig = Some (Inr (VDisposer 0), st_watch)
   \<and> setter (\<lambda>t s'. exec env_rewrite 40 t s') 0 (VNum 1) st_watch
       = Some (Inr VUndefined, st_written_back)
   \<and> since st_watch st_written_back
       = [EvWrite 0 (VNum 1), EvInvoke (ComputeFn 0), EvFn 0, EvRead 0 (VNum 1),
          EvWrite 0 (VNum 0), EvInvoke (ComputeFn 0), EvFn 0, EvRead 0 (VNum 0),
          EvRead 0 (VNum 0)]
   \<and> cleanup (effs st_written_back ! 0) = VNum 0"
  by code_simp

text \<open>
  C10, as amended. The setter assigns the new value before the loop over the observers:
  the history of a call \<open>set_s(v)\<close> starts with the write. Every read of \<open>s\<close> made while the
  observers run gave the value written to \<open>s\<close> last before it, and the signal ends with the
  value written last; so when no observer writes \<open>s\<close> again, every read gave \<open>v\<close> and the
  signal holds \<open>v\<close>. What a read gave is what the call of the accessor returned: in any
  state, with or without a running effect, a call of the accessor of \<open>s\<close> returns the
  stored value and records that same value, and client code that calls it continues with
  that value.
\<close>

theorem setter_stores_before_notifying:
  "setter (\<lambda>t s'. exec env n t s') s v st = Some (r, st') \<Longrightarrow> s < length (sigs st) \<Longrightarrow>
     (\<exists>seg. trace st' = trace st @ EvWrite s v # seg
          \<and> reads_latest s v seg
          \<and> val (sigs st' ! s) = last_val s v seg
          \<and> (list_all (\<lambda>ev. \<not> writes s ev) seg \<longrightarrow>
               (\<forall>x. EvRead s x \<in> set seg \<longrightarrow> x = v) \<and> val (sigs st' ! s) = v))
     \<and> (s < length (sigs st0) \<longrightarrow>
          exec env (Suc m) (CallVal (VAccessor s)) st0
            = Some (Inr (val (sigs st0 ! s)), snd (accessor s st0))
          \<and> trace (snd (accessor s st0)) = trace st0 @ [EvRead s (val (sigs st0 ! s))]
          \<and> exec env (Suc (Suc m)) (Run (Call (VAccessor s) k)) st0
            = exec env (Suc m) (Run (k (val (sigs st0 ! s)))) (snd (accessor s st0)))"
proof (intro conjI impI)
  assume a: "setter (\<lambda>t s'. exec env n t s') s v st = Some (r, st')" "s < length (sigs st)"
  from setter_sound[OF a] obtain seg where
    seg: "trace st' = trace st @ EvWrite s v # seg" "reads_latest s v seg"
      "val (sigs st' ! s) = last_val s v seg" by blast
  have "(\<forall>x. EvRead s x \<in> set seg \<longrightarrow> x = v) \<and> val (sigs st' ! s) = v"
    if "list_all (\<lambda>ev. \<not> writes s ev) seg"
    using reads_latest_no_writes[OF seg(2) that] seg(3) last_val_no_writes[OF that] by simp
  with seg show "\<exists>seg. trace st' = trace st @ EvWrite s v # seg
          \<and> reads_latest s v seg
          \<and> val (sigs st' ! s) = last_val s v seg
          \<and> (list_all (\<lambda>ev. \<not> writes s ev) seg \<longrightarrow>
               (\<forall>x. EvRead s x \<in> set seg \<longrightarrow> x = v) \<and> val (sigs st' ! s) = v)" by blast
next
  assume s: "s < length (sigs st0)"
  have acc: "accessor s st0 = (Inr (val (sigs st0 ! s)), snd (accessor s st0))"
    by (simp add: accessor_def Let_def)
  from s show c: "exec env (Suc m) (CallVal (VAccessor s)) st0
            = Some (Inr (val (sigs st0 ! s)), snd (accessor s st0))"
    using acc by simp
  show "trace (snd (accessor s st0)) = trace st0 @ [EvRead s (val (sigs st0 ! s))]"
    by (simp add: accessor_def Let_def emit_def split: option.splits)
  show "exec env (Suc (Suc m)) (Run (Call (VAccessor s) k)) st0
            = exec env (Suc m) (Run (k (val (sigs st0 ! s)))) (snd (accessor s st0))"
    unfolding exec.simps(4)[of env "Suc m"] c by (simp add: and_then_def)
qed

theorem setter_stores_before_notifying_witness:
  "setter (\<lambda>t s'. exec env_rewrite 40 t s') 0 (VNum 1) st_echo = Some (Inr VUndefined, st_echo_written)
   \<and> (0::nat) < length (sigs st_echo)
   \<and> (\<exists>seg. trace st_echo_written = trace st_echo @ EvWrite 0 (VNum 1) # seg
          \<and> reads_latest 0 (VNum 1) seg
          \<and> list_all (\<lambda>ev. \<not> writes 0 ev) seg
          \<and> EvRead 0 (VNum 1) \<in> set seg)
   \<and> val (sigs st_echo_written ! 0) = VNum 1
   \<and> cleanup (effs st_echo_written ! 0) = VNum 1
   \<and> (0::nat) < length (sigs st_echo_running)
   \<and> Observer st_echo_running = Some (ComputeFn 0)
   \<and> exec env_rewrite (Suc 0) (CallVal (VAccessor 0)) st_echo_running
        = Some (Inr (VNum 1), snd (accessor 0 st_echo_running))
   \<and> trace (snd (accessor 0 st_echo_running)) = trace st_echo_running @ [EvRead 0 (VNum 1)]
   \<and> exec env_rewrite (Suc (Suc 0)) (Run (Call (VAccessor 0) (\<lambda>x. Return x))) st_echo_running
        = Some (Inr (VNum 1), snd (accessor 0 st_echo_running))"
proof -
  have a: "setter (\<lambda>t s'. exec env_rewrite 40 t s') 0 (VNum 1) st_echo
             = Some (Inr VUndefined, st_echo_written)" by code_simp
  have b: "(0::nat) < length (sigs st_echo)" by (simp add: st_echo_def)
  have c: "(0::nat) < length (sigs st_echo_running)" "Observer st_echo_running = Some (ComputeFn 0)"
    by (simp_all add: st_echo_running_def)
  have v: "val (sigs st_echo_running ! 0) = VNum 1" by (simp add: st_echo_running_def)
  note th = setter_stores_before_notifying[OF a b, where ?st0.0 = st_echo_running and m = 0
      and k = "\<lambda>x. Return x"]
  from th obtain seg where
    seg: "trace st_echo_written = trace st_echo @ EvWrite 0 (VNum 1) # seg"
      "reads_latest 0 (VNum 1) seg"
    by blast
  from seg(1) have s: "seg = [EvInvoke (ComputeFn 0), EvFn 0, EvRead 0 (VNum 1)]"
    by (simp add: st_echo_def st_echo_written_def)
  have d: "list_all (\<lambda>ev. \<not> writes 0 ev) seg" "EvRead 0 (VNum 1) \<in> set seg"
    by (simp_all add: s)
  from seg d have ex: "\<exists>seg. trace st_echo_written = trace st_echo @ EvWrite 0 (VNum 1) # seg
          \<and> reads_latest 0 (VNum 1) seg
          \<and> list_all (\<lambda>ev. \<not> writes 0 ev) seg
          \<and> EvRead 0 (VNum 1) \<in> set seg" by blast
  have e: "cleanup (effs st_echo_written ! 0) = VNum 1" "val (sigs st_echo_written ! 0) = VNum 1"
    by (simp_all add: st_echo_written_def)
  from th c(1) have tie:
    "exec env_rewrite (Suc 0) (CallVal (VAccessor 0)) st_echo_running
        = Some (Inr (val (sigs st_echo_running ! 0)), snd (accessor 0 st_echo_running))"
    "trace (snd (accessor 0 st_echo_running))
        = trace st_echo_running @ [EvRead 0 (val (sigs st_echo_running ! 0))]"
    "exec env_rewrite (Suc (Suc 0)) (Run (Call (VAccessor 0) (\<lambda>x. Return x))) st_echo_running
        = exec env_rewrite (Suc 0) (Run (Return (val (sigs st_echo_running ! 0))))
            (snd (accessor 0 st_echo_running))"
    by blast+
  have g: "exec env_rewrite (Suc 0) (Run (Return (VNum 1))) (snd (accessor 0 st_echo_running))
        = Some (Inr (VNum 1), snd (accessor 0 st_echo_running))" by simp
  note f = tie(1,2)[unfolded v] trans[OF tie(3)[unfolded v] g]
  from a b ex e c f show ?thesis by blast
qed

end
